theory Spec2Isabelle
  imports Main "HOL-Library.Char_ord" "HOL-Library.List_Lexorder" "HOL-Library.Finite_Map"
begin

section \<open>Data model of tx-core.ts\<close>

text \<open>
  JavaScript strings are modelled as \<^typ>\<open>string\<close>; the comparison \<open><\<close> of the
  source and the default \<open>Array.prototype.sort\<close> on strings are the lexicographic order
  on character codes. JavaScript \<open>number\<close> fields (\<open>version\<close>, \<open>threshold\<close>,
  \<open>notBefore\<close>) hold integers and are modelled as \<^typ>\<open>int\<close>, as is \<open>bigint\<close>.
  A \<open>Record<PubKey, Signature>\<close> is a finite map; where the source enumerates its keys
  the model enumerates them in ascending order.
\<close>

type_synonym Hex = string
type_synonym Hash = string
type_synonym PubKey = string
type_synonym Address = string
type_synonym Signature = string
type_synonym NoteName = "string \<times> string"

datatype Lock =
    LPkh int "Hash list"
  | LHax Hash
  | LTim int Lock
  | LBrn

record Note =
  name :: NoteName
  noteAssetId :: "string option"
  noteAmount :: int
  lock :: Lock

record Output =
  address :: Address
  amount :: int
  assetId :: "string option"

record PkhSeeds =
  threshold :: int
  pkhs :: "Hash list"
  signatures :: "(PubKey, Signature) fmap"

datatype Seeds =
    Pkh PkhSeeds
  | Hax "Hex option"
  | Tim int Seeds
  | Brn

record Spend =
  noteId :: string
  seeds :: Seeds

text \<open>\<open>TxBase\<close> is \<open>Omit<Transaction, "unsignedHash">\<close>; \<open>Transaction\<close> extends it.\<close>

record TxBase =
  version :: int
  network :: "string option"
  spends :: "Spend list"
  outputs :: "Output list"
  fee :: int

record Transaction = TxBase +
  unsignedHash :: Hash

record Signer =
  pubkey :: PubKey
  sign :: "string \<Rightarrow> Signature option"

record CryptoProvider =
  hash :: "string \<Rightarrow> Hash"
  hashPubkey :: "PubKey \<Rightarrow> Hash"
  verify :: "PubKey \<Rightarrow> string \<Rightarrow> Signature \<Rightarrow> bool"

text \<open>
  Every \<open>throw new Error(...)\<close> of the source is one constructor. \<open>InsufficientFunds\<close>
  carries the needed amount (outputs plus fee) and the available amount (inputs), the two
  numbers both messages of the source print.
\<close>

datatype error =
    NoteNameMismatch Hash Hash
  | NoteAmountNotPositive
  | NoOutputs
  | OutputAmountNotPositive
  | NegativeFee
  | InsufficientFunds int int
  | PkhsNotUnique
  | ThresholdNotPositive
  | ThresholdExceedsPkhs
  | AttachOnlyPkh
  | SignerNotAllowed
  | UnknownNoteId
  | SignOnlyPkh
  | SignerNotInLock
  | SignerRejected
  | SignatureVerificationFailed
  | JsonSyntaxError
  | BigIntSyntaxError
  | MissingVersion
  | MissingUnsignedHash
  | MissingSpends
  | MissingOutputs
  | MergeHashDiffers
  | MergeKindMismatch string
  | MergeThresholdDiffers
  | MergePkhsDiffer
  | MergeNotBeforeDiffers
  | SeedsKindDiffers
  | SeedsThresholdDiffers
  | SeedsPkhsDiffer
  | SeedsNotBeforeDiffers
  | FeeAllocationFailed
  | OutputAllocationFailed

fun mapE :: "('a \<Rightarrow> error + 'b) \<Rightarrow> 'a list \<Rightarrow> error + 'b list" where
  "mapE f [] = Inr []"
| "mapE f (x # xs) =
     (case f x of
        Inl e \<Rightarrow> Inl e
      | Inr y \<Rightarrow> (case mapE f xs of Inl e \<Rightarrow> Inl e | Inr ys \<Rightarrow> Inr (y # ys)))"

definition noteIdFromName :: "NoteName \<Rightarrow> string" where
  "noteIdFromName nm = fst nm @ ''.'' @ snd nm"

section \<open>Deterministic canonical encoding\<close>

text \<open>
  The values the encoders walk over: \<open>undefined\<close>, \<open>null\<close>, booleans, numbers, bigints,
  strings, arrays and plain objects (a list of properties with distinct keys).
\<close>

datatype jv =
    JUndef
  | JNull
  | JBool bool
  | JNum int
  | JBig int
  | JStr string
  | JArr "jv list"
  | JObj "(string \<times> jv) list"

fun digitsNat :: "nat \<Rightarrow> string" where
  "digitsNat n =
     (if n < 10 then [''0123456789'' ! n]
      else digitsNat (n div 10) @ [''0123456789'' ! (n mod 10)])"

declare digitsNat.simps [simp del]

definition toString :: "int \<Rightarrow> string" where
  "toString i = (if i < 0 then ''-'' @ digitsNat (nat (- i)) else digitsNat (nat i))"

text \<open>
  \<open>JSON.stringify\<close>'s quoting of a string: the quote and the backslash are escaped,
  control characters are written with their short escape or as \<open>\u00XX\<close>.
\<close>

definition hexDigit :: "nat \<Rightarrow> char" where
  "hexDigit n = ''0123456789abcdef'' ! n"

definition escapeChar :: "char \<Rightarrow> string" where
  "escapeChar c =
     (if c = CHR 0x22 then [CHR 0x5C, CHR 0x22]
      else if c = CHR 0x5C then [CHR 0x5C, CHR 0x5C]
      else if c = CHR 0x08 then [CHR 0x5C, CHR ''b'']
      else if c = CHR 0x09 then [CHR 0x5C, CHR ''t'']
      else if c = CHR 0x0A then [CHR 0x5C, CHR ''n'']
      else if c = CHR 0x0C then [CHR 0x5C, CHR ''f'']
      else if c = CHR 0x0D then [CHR 0x5C, CHR ''r'']
      else if (of_char c :: nat) < 32
        then [CHR 0x5C, CHR ''u'', CHR ''0'', CHR ''0'',
              hexDigit (of_char c div 16), hexDigit (of_char c mod 16)]
      else [c])"

definition quoteJson :: "string \<Rightarrow> string" where
  "quoteJson s = CHR 0x22 # concat (map escapeChar s) @ [CHR 0x22]"

fun joinWith :: "string \<Rightarrow> string list \<Rightarrow> string" where
  "joinWith sep [] = []"
| "joinWith sep [x] = x"
| "joinWith sep (x # y # ys) = x @ sep @ joinWith sep (y # ys)"

text \<open>
  \<open>canonicalStringify(value) = JSON.stringify(value, replacer, 0)\<close>, where the replacer
  turns a bigint \<open>v\<close> into the string \<open>n:\<close> followed by its decimal digits. A property
  whose value is \<open>undefined\<close> is left out of an object and written \<open>null\<close> in an array.
\<close>

fun canonicalStringify :: "jv \<Rightarrow> string" where
  "canonicalStringify JUndef = []"
| "canonicalStringify JNull = ''null''"
| "canonicalStringify (JBool b) = (if b then ''true'' else ''false'')"
| "canonicalStringify (JNum n) = toString n"
| "canonicalStringify (JBig n) = quoteJson (''n:'' @ toString n)"
| "canonicalStringify (JStr s) = quoteJson s"
| "canonicalStringify (JArr xs) =
     ''['' @ joinWith '','' (map (\<lambda>x. if x = JUndef then ''null'' else canonicalStringify x) xs) @ '']''"
| "canonicalStringify (JObj kvs) =
     ''{'' @ joinWith '',''
        (map (\<lambda>(k, v). quoteJson k @ '':'' @ canonicalStringify v)
             (filter (\<lambda>(k, v). v \<noteq> JUndef) kvs)) @ ''}''"

text \<open>
  Reading a numeral: the value of a digit character (letters count from ten, for the bases
  above ten) and the number a non-empty string of digits of a base denotes.
\<close>

definition digitValue :: "char \<Rightarrow> nat option" where
  "digitValue c =
     (let n = (of_char c :: nat) in
      if 48 \<le> n \<and> n \<le> 57 then Some (n - 48)
      else if 97 \<le> n \<and> n \<le> 122 then Some (n - 87)
      else if 65 \<le> n \<and> n \<le> 90 then Some (n - 55)
      else None)"

definition parseDigits :: "nat \<Rightarrow> string \<Rightarrow> nat option" where
  "parseDigits base s =
     (if s = [] then None
      else foldl (\<lambda>acc c. case acc of
                             None \<Rightarrow> None
                           | Some n \<Rightarrow> (case digitValue c of
                                          None \<Rightarrow> None
                                        | Some d \<Rightarrow> if d < base then Some (n * base + d) else None))
                 (Some 0) s)"

text \<open>
  The properties of an object are listed in the order in which JavaScript enumerates them:
  first the keys that are array indices (the decimal numerals of 0 to \<open>2^32 - 2\<close>, without
  leading zeros) in ascending numeric order, then the other keys in the order of their
  creation. \<open>arrayIndex k\<close> is the index that the key \<open>k\<close> denotes, if it denotes one;
  \<open>defineOwn props k v\<close> creates the own property \<open>k\<close> with value \<open>v\<close>, or overwrites
  its value where it stands.
\<close>

definition arrayIndex :: "string \<Rightarrow> nat option" where
  "arrayIndex k =
     (case parseDigits 10 k of
        None \<Rightarrow> None
      | Some n \<Rightarrow> if digitsNat n = k \<and> int n < 4294967295 then Some n else None)"

fun insertIndexed :: "nat \<Rightarrow> string \<times> jv \<Rightarrow> (string \<times> jv) list \<Rightarrow> (string \<times> jv) list" where
  "insertIndexed n p [] = [p]"
| "insertIndexed n p (q # ps) =
     (case arrayIndex (fst q) of
        None \<Rightarrow> p # q # ps
      | Some m \<Rightarrow> if m < n then q # insertIndexed n p ps else p # q # ps)"

definition defineOwn :: "(string \<times> jv) list \<Rightarrow> string \<Rightarrow> jv \<Rightarrow> (string \<times> jv) list" where
  "defineOwn props k v =
     (if k \<in> fst ` set props then map (\<lambda>q. if fst q = k then (k, v) else q) props
      else case arrayIndex k of
             None \<Rightarrow> props @ [(k, v)]
           | Some n \<Rightarrow> insertIndexed n (k, v) props)"

text \<open>
  The assignment \<open>out[k] = v\<close> to an object \<open>out\<close> that began as \<open>{}\<close> and was only
  written by such assignments. For the key \<open>__proto__\<close> the assignment reaches the setter
  that \<open>out\<close> inherits from \<open>Object.prototype\<close>: it replaces the prototype of \<open>out\<close> when
  \<open>v\<close> is an object or \<open>null\<close> and does nothing otherwise; in both cases no own property
  is created, and the encoders only read own properties. Every other key creates or
  overwrites an own property.
\<close>

definition assign :: "(string \<times> jv) list \<Rightarrow> string \<Rightarrow> jv \<Rightarrow> (string \<times> jv) list" where
  "assign out k v = (if k = ''__proto__'' then out else defineOwn out k v)"

text \<open>
  \<open>deepCanonicalize(value, {sortArrays})\<close> with the default \<open>arraySortKey\<close>
  (\<open>canonicalStringify\<close>). An array is mapped and, if asked for, sorted: \<open>sort\<close> is stable,
  calls the comparator on the elements other than \<open>undefined\<close> and puts the \<open>undefined\<close>
  ones last. An object is rebuilt: \<open>Object.keys(v).sort()\<close> lists the keys in string order
  (the keys of an object are distinct, so this is the list of properties sorted by key), and
  the loop assigns \<open>out[k] = walk(v[k])\<close> for each of them in that order.
\<close>

fun deepCanonicalize :: "bool \<Rightarrow> jv \<Rightarrow> jv" where
  "deepCanonicalize sortArrays (JArr xs) =
     (let mapped = map (deepCanonicalize sortArrays) xs
      in if \<not> sortArrays then JArr mapped
         else JArr (sort_key canonicalStringify (filter (\<lambda>x. x \<noteq> JUndef) mapped)
                    @ filter (\<lambda>x. x = JUndef) mapped))"
| "deepCanonicalize sortArrays (JObj kvs) =
     JObj (foldl (\<lambda>out p. assign out (fst p) (snd p)) []
             (sort_key fst (map (\<lambda>(k, v). (k, deepCanonicalize sortArrays v)) kvs)))"
| "deepCanonicalize sortArrays v = v"

definition utf8ToBytes :: "string \<Rightarrow> string" where
  "utf8ToBytes s = s"

section \<open>Lock canonical encoding and hashing\<close>

fun canonicalizeLock :: "Lock \<Rightarrow> jv" where
  "canonicalizeLock (LPkh t ps) =
     deepCanonicalize False
       (JObj [(''kind'', JStr ''%pkh''), (''threshold'', JNum t),
              (''pkhs'', JArr (map JStr (sort ps)))])"
| "canonicalizeLock (LHax h) =
     deepCanonicalize False (JObj [(''kind'', JStr ''%hax''), (''hash'', JStr h)])"
| "canonicalizeLock (LTim nb inner) =
     deepCanonicalize False
       (JObj [(''kind'', JStr ''%tim''), (''notBefore'', JNum nb),
              (''inner'', canonicalizeLock inner)])"
| "canonicalizeLock LBrn = JObj [(''kind'', JStr ''%brn'')]"

definition encodeLock :: "Lock \<Rightarrow> string" where
  "encodeLock l = utf8ToBytes (canonicalStringify (canonicalizeLock l))"

definition lockHash :: "Lock \<Rightarrow> CryptoProvider \<Rightarrow> Hash" where
  "lockHash l crypto = hash crypto (encodeLock l)"

definition buildNoteName :: "Lock \<Rightarrow> string \<Rightarrow> CryptoProvider \<Rightarrow> NoteName" where
  "buildNoteName l sourceDerivation crypto = (lockHash l crypto, sourceDerivation)"

definition assertNoteNameMatchesLock :: "Note \<Rightarrow> CryptoProvider \<Rightarrow> error + unit" where
  "assertNoteNameMatchesLock n crypto =
     (let expected = lockHash (lock n) crypto
      in if fst (name n) \<noteq> expected then Inl (NoteNameMismatch expected (fst (name n)))
         else Inr ())"

fun validateNotes :: "Note list \<Rightarrow> CryptoProvider \<Rightarrow> error + unit" where
  "validateNotes [] crypto = Inr ()"
| "validateNotes (n # ns) crypto =
     (case assertNoteNameMatchesLock n crypto of
        Inl e \<Rightarrow> Inl e
      | Inr _ \<Rightarrow> if noteAmount n \<le> 0 then Inl NoteAmountNotPositive
                 else validateNotes ns crypto)"

section \<open>Unsigned payload encoding\<close>

definition orNull :: "string option \<Rightarrow> jv" where
  "orNull s = (case s of None \<Rightarrow> JNull | Some x \<Rightarrow> JStr x)"

definition sigEntries :: "(PubKey, Signature) fmap \<Rightarrow> jv list" where
  "sigEntries sigs =
     map (\<lambda>k. JObj [(''pubkey'', JStr k), (''signature'', JStr (the (fmlookup sigs k)))])
         (sorted_list_of_fset (fmdom sigs))"

fun canonicalizeSeeds :: "Seeds \<Rightarrow> jv" where
  "canonicalizeSeeds (Pkh s) =
     deepCanonicalize False
       (JObj [(''kind'', JStr ''%pkh''), (''threshold'', JNum (threshold s)),
              (''pkhs'', JArr (map JStr (sort (pkhs s)))),
              (''sigEntries'', JArr (sigEntries (signatures s)))])"
| "canonicalizeSeeds (Hax p) =
     deepCanonicalize False (JObj [(''kind'', JStr ''%hax''), (''preimage'', orNull p)])"
| "canonicalizeSeeds (Tim nb inner) =
     deepCanonicalize False
       (JObj [(''kind'', JStr ''%tim''), (''notBefore'', JNum nb),
              (''inner'', canonicalizeSeeds inner)])"
| "canonicalizeSeeds Brn = JObj [(''kind'', JStr ''%brn'')]"

definition outputSortKey :: "Output \<Rightarrow> string" where
  "outputSortKey o' =
     (case assetId o' of None \<Rightarrow> [] | Some a \<Rightarrow> a) @ ''|'' @ address o' @ ''|''
       @ toString (amount o')"

definition encodeUnsignedPayload :: "'a TxBase_scheme \<Rightarrow> string" where
  "encodeUnsignedPayload tx =
     (let canonical = deepCanonicalize False
        (JObj [(''version'', JNum (version tx)),
               (''network'', orNull (network tx)),
               (''fee'', JBig (fee tx)),
               (''spends'', JArr (map (\<lambda>s. JObj [(''noteId'', JStr (noteId s)),
                                                   (''seeds'', canonicalizeSeeds (seeds s))])
                                     (sort_key noteId (spends tx)))),
               (''outputs'', JArr (map (\<lambda>o'. JObj [(''address'', JStr (address o')),
                                                     (''amount'', JBig (amount o')),
                                                     (''assetId'', orNull (assetId o'))])
                                      (sort_key outputSortKey (outputs tx))))])
      in utf8ToBytes (canonicalStringify canonical))"

section \<open>Locks to seeds, notes to spends\<close>

definition assertValidPkhLock :: "int \<Rightarrow> Hash list \<Rightarrow> error + unit" where
  "assertValidPkhLock t ps =
     (if \<not> distinct ps then Inl PkhsNotUnique
      else if t \<le> 0 then Inl ThresholdNotPositive
      else if t > int (length ps) then Inl ThresholdExceedsPkhs
      else Inr ())"

fun seedsFromLock :: "Lock \<Rightarrow> error + Seeds" where
  "seedsFromLock (LPkh t ps) =
     (case assertValidPkhLock t ps of
        Inl e \<Rightarrow> Inl e
      | Inr _ \<Rightarrow> Inr (Pkh \<lparr>threshold = t, pkhs = sort ps, signatures = fmempty\<rparr>))"
| "seedsFromLock (LHax h) = Inr (Hax None)"
| "seedsFromLock (LTim nb inner) =
     (case seedsFromLock inner of Inl e \<Rightarrow> Inl e | Inr s \<Rightarrow> Inr (Tim nb s))"
| "seedsFromLock LBrn = Inr Brn"

definition spendOfNote :: "Note \<Rightarrow> error + Spend" where
  "spendOfNote n =
     (case seedsFromLock (lock n) of
        Inl e \<Rightarrow> Inl e
      | Inr s \<Rightarrow> Inr \<lparr>noteId = noteIdFromName (name n), seeds = s\<rparr>)"

definition buildSpends :: "Note list \<Rightarrow> error + Spend list" where
  "buildSpends notes =
     (let sorted = sort_key (\<lambda>n. noteIdFromName (name n)) notes
      in mapE spendOfNote sorted)"

definition sumInputs :: "Note list \<Rightarrow> int" where
  "sumInputs notes = foldl (\<lambda>acc n. acc + noteAmount n) 0 notes"

definition sumOutputs :: "Output list \<Rightarrow> int" where
  "sumOutputs os = foldl (\<lambda>acc o'. acc + amount o') 0 os"

section \<open>Build unsigned transaction\<close>

definition buildUnsignedTransaction ::
  "int option \<Rightarrow> string option \<Rightarrow> Note list \<Rightarrow> Output list \<Rightarrow> int \<Rightarrow> Output option
     \<Rightarrow> CryptoProvider \<Rightarrow> error + Transaction" where
  "buildUnsignedTransaction versionArg networkArg notes outs feeArg change crypto =
     (let v = (case versionArg of None \<Rightarrow> 1 | Some x \<Rightarrow> x) in
      case validateNotes notes crypto of
        Inl e \<Rightarrow> Inl e
      | Inr _ \<Rightarrow>
         (let os = (case change of None \<Rightarrow> outs | Some c \<Rightarrow> outs @ [c]) in
          if os = [] then Inl NoOutputs
          else if \<exists>o' \<in> set os. amount o' \<le> 0 then Inl OutputAmountNotPositive
          else if feeArg < 0 then Inl NegativeFee
          else
            (let inputTotal = sumInputs notes; outputTotal = sumOutputs os in
             if inputTotal < outputTotal + feeArg
             then Inl (InsufficientFunds (outputTotal + feeArg) inputTotal)
             else
               (case buildSpends notes of
                  Inl e \<Rightarrow> Inl e
                | Inr sp \<Rightarrow>
                   (let base = \<lparr>version = v, network = networkArg, spends = sp,
                                outputs = os, fee = feeArg\<rparr>;
                        bytes = encodeUnsignedPayload base
                    in Inr (TxBase.extend base
                              (Transaction.fields (hash crypto bytes))))))))"

section \<open>Signature collection on \<open>%pkh\<close> spends\<close>

definition pkhIsAllowed :: "CryptoProvider \<Rightarrow> PubKey \<Rightarrow> Hash list \<Rightarrow> bool" where
  "pkhIsAllowed crypto pk ps =
     (let pkh = hashPubkey crypto pk in pkh \<in> set ps \<or> pk \<in> set ps)"

text \<open>The loop of \<open>countCollectedPkh\<close>: the state is \<open>(seenPkhs, count)\<close>.\<close>

fun countLoop :: "CryptoProvider \<Rightarrow> Hash list \<Rightarrow> PubKey list \<Rightarrow> Hash set \<Rightarrow> int \<Rightarrow> int" where
  "countLoop crypto ps [] seenPkhs count = count"
| "countLoop crypto ps (pk # rest) seenPkhs count =
     (let pkh = hashPubkey crypto pk in
      if pkh \<notin> set ps \<and> pk \<notin> set ps then countLoop crypto ps rest seenPkhs count
      else if pkh \<in> seenPkhs then countLoop crypto ps rest seenPkhs count
      else countLoop crypto ps rest (insert pkh seenPkhs) (count + 1))"

definition countCollectedPkh :: "PkhSeeds \<Rightarrow> CryptoProvider \<Rightarrow> int" where
  "countCollectedPkh s crypto =
     countLoop crypto (pkhs s) (sorted_list_of_fset (fmdom (signatures s))) {} 0"

definition isPkhComplete :: "PkhSeeds \<Rightarrow> CryptoProvider \<Rightarrow> bool" where
  "isPkhComplete s crypto = (countCollectedPkh s crypto \<ge> threshold s)"

definition attachToSpend ::
  "string \<Rightarrow> PubKey \<Rightarrow> Signature \<Rightarrow> CryptoProvider \<Rightarrow> Spend \<Rightarrow> error + Spend" where
  "attachToSpend nid pk sig crypto s =
     (if noteId s \<noteq> nid then Inr s
      else case seeds s of
        Pkh ps \<Rightarrow>
          if \<not> pkhIsAllowed crypto pk (pkhs ps) then Inl SignerNotAllowed
          else Inr (s\<lparr>seeds := Pkh (ps\<lparr>signatures := fmupd pk sig (signatures ps)\<rparr>)\<rparr>)
      | _ \<Rightarrow> Inl AttachOnlyPkh)"

definition attachSignatureToSpend ::
  "Transaction \<Rightarrow> string \<Rightarrow> PubKey \<Rightarrow> Signature \<Rightarrow> CryptoProvider \<Rightarrow> error + Transaction" where
  "attachSignatureToSpend tx nid pk sig crypto =
     (case mapE (attachToSpend nid pk sig crypto) (spends tx) of
        Inl e \<Rightarrow> Inl e
      | Inr sp \<Rightarrow> Inr (tx\<lparr>spends := sp\<rparr>))"

definition unsignedOf :: "Transaction \<Rightarrow> TxBase" where
  "unsignedOf tx =
     \<lparr>version = version tx, network = network tx, spends = spends tx,
      outputs = outputs tx, fee = fee tx\<rparr>"

definition verifySignatureOnTx ::
  "Transaction \<Rightarrow> PubKey \<Rightarrow> Signature \<Rightarrow> CryptoProvider \<Rightarrow> bool" where
  "verifySignatureOnTx tx pk sig crypto =
     (let bytes = encodeUnsignedPayload (unsignedOf tx) in verify crypto pk bytes sig)"

text \<open>
  \<open>signSpend\<close> awaits \<open>signer.sign(bytes)\<close>; a rejected promise is \<open>None\<close> and becomes
  \<open>SignerRejected\<close>.
\<close>

definition signSpend ::
  "Transaction \<Rightarrow> string \<Rightarrow> Signer \<Rightarrow> CryptoProvider \<Rightarrow> error + Transaction" where
  "signSpend tx nid signer crypto =
     (case find (\<lambda>s. noteId s = nid) (spends tx) of
        None \<Rightarrow> Inl UnknownNoteId
      | Some target \<Rightarrow>
         (case seeds target of
            Pkh ps \<Rightarrow>
              if \<not> pkhIsAllowed crypto (pubkey signer) (pkhs ps) then Inl SignerNotInLock
              else
                (let bytes = encodeUnsignedPayload (unsignedOf tx) in
                 case sign signer bytes of
                   None \<Rightarrow> Inl SignerRejected
                 | Some sig \<Rightarrow>
                     if \<not> verify crypto (pubkey signer) bytes sig
                     then Inl SignatureVerificationFailed
                     else attachSignatureToSpend tx nid (pubkey signer) sig crypto)
          | _ \<Rightarrow> Inl SignOnlyPkh))"

section \<open>Merge partially signed transactions\<close>

fun mergeSeeds :: "Seeds \<Rightarrow> Seeds \<Rightarrow> error + Seeds" where
  "mergeSeeds (Pkh A) (Pkh B) =
     (if threshold A \<noteq> threshold B then Inl SeedsThresholdDiffers
      else if canonicalStringify (JArr (map JStr (sort (pkhs A))))
              \<noteq> canonicalStringify (JArr (map JStr (sort (pkhs B))))
        then Inl SeedsPkhsDiffer
      else Inr (Pkh (A\<lparr>signatures := signatures A ++\<^sub>f signatures B\<rparr>)))"
| "mergeSeeds (Hax A) (Hax B) = Inr (Hax (case A of Some p \<Rightarrow> Some p | None \<Rightarrow> B))"
| "mergeSeeds (Tim nbA innerA) (Tim nbB innerB) =
     (if nbA \<noteq> nbB then Inl SeedsNotBeforeDiffers
      else case mergeSeeds innerA innerB of
             Inl e \<Rightarrow> Inl e
           | Inr inner \<Rightarrow> Inr (Tim nbA inner))"
| "mergeSeeds Brn Brn = Inr Brn"
| "mergeSeeds a b = Inl SeedsKindDiffers"

fun seedsKind :: "Seeds \<Rightarrow> string" where
  "seedsKind (Pkh s) = ''%pkh''"
| "seedsKind (Hax p) = ''%hax''"
| "seedsKind (Tim nb inner) = ''%tim''"
| "seedsKind Brn = ''%brn''"

text \<open>
  The body of the \<open>a.spends.map\<close> callback once \<open>sb\<close> has been found in
  \<open>bByNote\<close>.
\<close>

definition mergeSpend :: "Spend \<Rightarrow> Spend \<Rightarrow> error + Spend" where
  "mergeSpend sa sb =
     (if seedsKind (seeds sa) \<noteq> seedsKind (seeds sb) then Inl (MergeKindMismatch (noteId sa))
      else case (seeds sa, seeds sb) of
        (Pkh A, Pkh B) \<Rightarrow>
          if threshold A \<noteq> threshold B then Inl MergeThresholdDiffers
          else if canonicalStringify (JArr (map JStr (sort (pkhs A))))
                  \<noteq> canonicalStringify (JArr (map JStr (sort (pkhs B))))
            then Inl MergePkhsDiffer
          else Inr (sa\<lparr>seeds := Pkh (A\<lparr>signatures := signatures A ++\<^sub>f signatures B\<rparr>)\<rparr>)
      | (Hax A, Hax B) \<Rightarrow>
          Inr (sa\<lparr>seeds := Hax (case A of Some p \<Rightarrow> Some p | None \<Rightarrow> B)\<rparr>)
      | (Tim nbA innerA, Tim nbB innerB) \<Rightarrow>
          if nbA \<noteq> nbB then Inl MergeNotBeforeDiffers
          else (case mergeSeeds innerA innerB of
                  Inl e \<Rightarrow> Inl e
                | Inr inner \<Rightarrow> Inr (sa\<lparr>seeds := Tim nbA inner\<rparr>))
      | _ \<Rightarrow> Inr sa)"

text \<open>
  \<open>new Map(b.spends.map((s) => [s.noteId, s]))\<close>: a later entry replaces an earlier one
  with the same key.
\<close>

definition bByNote :: "Spend list \<Rightarrow> string \<Rightarrow> Spend option" where
  "bByNote bs = map_of (rev (map (\<lambda>s. (noteId s, s)) bs))"

definition mergePartiallySignedTx :: "Transaction \<Rightarrow> Transaction \<Rightarrow> error + Transaction" where
  "mergePartiallySignedTx a b =
     (if unsignedHash a \<noteq> unsignedHash b then Inl MergeHashDiffers
      else case mapE (\<lambda>sa. case bByNote (spends b) (noteId sa) of
                              None \<Rightarrow> Inr sa
                            | Some sb \<Rightarrow> mergeSpend sa sb) (spends a) of
             Inl e \<Rightarrow> Inl e
           | Inr sp \<Rightarrow> Inr (a\<lparr>spends := sp\<rparr>))"

section \<open>Simple transaction builder (helpers.ts)\<close>

definition buildSimpleTransaction ::
  "Note list \<Rightarrow> (string \<times> int) list \<Rightarrow> int \<Rightarrow> string option \<Rightarrow> CryptoProvider
     \<Rightarrow> error + Transaction" where
  "buildSimpleTransaction inputs recipients feeArg changeAddress crypto =
     (let totalIn = foldl (\<lambda>acc n. acc + noteAmount n) 0 inputs;
          totalOut = foldl (\<lambda>acc r. acc + snd r) 0 recipients;
          changeAmount = totalIn - totalOut - feeArg
      in if changeAmount < 0 then Inl (InsufficientFunds (totalOut + feeArg) totalIn)
         else
           (let outs = map (\<lambda>r. \<lparr>address = fst r, amount = snd r, assetId = None\<rparr>) recipients;
                change = (case changeAddress of
                            Some a \<Rightarrow>
                              if changeAmount > 0 \<and> a \<noteq> []
                              then Some \<lparr>address = a, amount = changeAmount, assetId = None\<rparr>
                              else None
                          | None \<Rightarrow> None)
            in buildUnsignedTransaction None None inputs outs feeArg change crypto))"

section \<open>Multi-note fee and output distribution\<close>

text \<open>
  \<open>BuilderSpend\<close> keeps what the two distribution functions read and write of a spend: the
  note's \<open>assets\<close> (\<open>spend.input.note.assets\<close>), the fee (\<open>spend.fee\<close>, here
  \<open>spendFee\<close>) and the seeds (\<open>spend.seeds\<close>, here \<open>spendSeeds\<close>). A seed and a pending
  amount are pairs \<open>(lockId, amount)\<close>. The functions mutate the spends in place; the model
  returns the updated list, or the error they throw.
\<close>

type_synonym BuilderSeed = "string \<times> int"
type_synonym PendingAmount = "string \<times> int"

record BuilderSpend =
  inputId :: string
  assets :: int
  spendFee :: int
  spendSeeds :: "BuilderSeed list"

definition getSpendUsed :: "BuilderSpend \<Rightarrow> int" where
  "getSpendUsed spend =
     (let seedTotal = foldl (\<lambda>sum seed. sum + snd seed) 0 (spendSeeds spend)
      in spendFee spend + seedTotal)"

text \<open>The \<open>for\<close> loop of \<open>distributeFeeAcrossSpends\<close>; the state is \<open>remaining\<close>.\<close>

fun feeLoop :: "BuilderSpend list \<Rightarrow> int \<Rightarrow> BuilderSpend list \<times> int" where
  "feeLoop [] remaining = ([], remaining)"
| "feeLoop (spend # rest) remaining =
     (if remaining \<le> 0 then (spend # rest, remaining)
      else
        (let capacity = assets spend - getSpendUsed spend in
         if capacity \<le> 0
         then (case feeLoop rest remaining of (rest', r) \<Rightarrow> (spend # rest', r))
         else
           (let feeShare = (if remaining \<le> capacity then remaining else capacity) in
            case feeLoop rest (remaining - feeShare) of
              (rest', r) \<Rightarrow> (spend\<lparr>spendFee := spendFee spend + feeShare\<rparr> # rest', r))))"

definition distributeFeeAcrossSpends :: "BuilderSpend list \<Rightarrow> int \<Rightarrow> error + BuilderSpend list" where
  "distributeFeeAcrossSpends sps totalFee =
     (if totalFee \<le> 0 then Inr sps
      else case feeLoop sps totalFee of
             (sps', remaining) \<Rightarrow>
               if remaining > 0 then Inl FeeAllocationFailed else Inr sps')"

text \<open>
  The inner \<open>while (capacity > 0n && queue.length > 0)\<close> of
  \<open>distributeAmountsAcrossSpends\<close>, on one spend: the state is the capacity, the queue and
  the seeds of the spend.
\<close>

function fillSpend ::
  "int \<Rightarrow> PendingAmount list \<Rightarrow> BuilderSeed list \<Rightarrow> BuilderSeed list \<times> PendingAmount list" where
  "fillSpend capacity [] sds = (sds, [])"
| "fillSpend capacity (target # queue) sds =
     (if capacity > 0 then
        (let allocation = (if snd target \<le> capacity then snd target else capacity);
             sds' = sds @ [(fst target, allocation)];
             target' = (fst target, snd target - allocation);
             capacity' = capacity - allocation
         in if snd target' \<le> 0 then fillSpend capacity' queue sds'
            else fillSpend capacity' (target' # queue) sds')
      else (sds, target # queue))"
  by pat_completeness auto
termination
  by (relation "measure (\<lambda>(c, q, s). 2 * length q + (if c > 0 then 1 else 0))") auto

text \<open>The outer \<open>for\<close> loop of \<open>distributeAmountsAcrossSpends\<close>.\<close>

fun amountLoop :: "BuilderSpend list \<Rightarrow> PendingAmount list \<Rightarrow> BuilderSpend list \<times> PendingAmount list" where
  "amountLoop [] queue = ([], queue)"
| "amountLoop (spend # rest) queue =
     (if queue = [] then (spend # rest, queue)
      else
        (let capacity = assets spend - getSpendUsed spend in
         if capacity \<le> 0
         then (case amountLoop rest queue of (rest', q) \<Rightarrow> (spend # rest', q))
         else
           (case fillSpend capacity queue (spendSeeds spend) of
              (sds', queue') \<Rightarrow>
                (case amountLoop rest queue' of
                   (rest', q) \<Rightarrow> (spend\<lparr>spendSeeds := sds'\<rparr> # rest', q)))))"

definition distributeAmountsAcrossSpends ::
  "BuilderSpend list \<Rightarrow> PendingAmount list \<Rightarrow> error + BuilderSpend list" where
  "distributeAmountsAcrossSpends sps amounts =
     (let queue = filter (\<lambda>item. snd item > 0) amounts in
      case amountLoop sps queue of
        (sps', queue') \<Rightarrow>
          if list_ex (\<lambda>item. snd item > 0) queue' then Inl OutputAllocationFailed
          else Inr sps')"

section \<open>Export and import\<close>

text \<open>
  \<open>BigInt(string)\<close>, as the reviver calls it: white space is trimmed, the empty string is 0,
  \<open>0x\<close>, \<open>0o\<close> and \<open>0b\<close> introduce hexadecimal, octal and binary digits, a decimal literal
  may carry a sign; anything else is a \<open>SyntaxError\<close> (\<open>None\<close>).
\<close>

definition isWhite :: "char \<Rightarrow> bool" where
  "isWhite c = (c \<in> {CHR 0x20, CHR 0x09, CHR 0x0A, CHR 0x0B, CHR 0x0C, CHR 0x0D})"

definition trimWhite :: "string \<Rightarrow> string" where
  "trimWhite s = rev (dropWhile isWhite (rev (dropWhile isWhite s)))"

definition BigInt :: "string \<Rightarrow> int option" where
  "BigInt s =
     (let t = trimWhite s in
      if t = [] then Some 0
      else if take 2 t = ''0x'' \<or> take 2 t = ''0X'' then map_option int (parseDigits 16 (drop 2 t))
      else if take 2 t = ''0o'' \<or> take 2 t = ''0O'' then map_option int (parseDigits 8 (drop 2 t))
      else if take 2 t = ''0b'' \<or> take 2 t = ''0B'' then map_option int (parseDigits 2 (drop 2 t))
      else if hd t = CHR ''-'' then map_option (\<lambda>n. - int n) (parseDigits 10 (tl t))
      else if hd t = CHR ''+'' then map_option int (parseDigits 10 (tl t))
      else map_option int (parseDigits 10 t))"

text \<open>
  The reviver of \<open>importTx\<close>, applied by \<open>JSON.parse\<close> to every value from the leaves up: a
  string that starts with \<open>n:\<close> becomes \<open>BigInt\<close> of the rest (which may throw), every other
  value is kept.
\<close>

fun revive :: "jv \<Rightarrow> error + jv"
  and reviveList :: "jv list \<Rightarrow> error + jv list"
  and reviveProps :: "(string \<times> jv) list \<Rightarrow> error + (string \<times> jv) list" where
  "revive (JStr s) =
     (if take 2 s = ''n:''
      then (case BigInt (drop 2 s) of None \<Rightarrow> Inl BigIntSyntaxError | Some n \<Rightarrow> Inr (JBig n))
      else Inr (JStr s))"
| "revive (JArr xs) = (case reviveList xs of Inl e \<Rightarrow> Inl e | Inr ys \<Rightarrow> Inr (JArr ys))"
| "revive (JObj kvs) = (case reviveProps kvs of Inl e \<Rightarrow> Inl e | Inr ps \<Rightarrow> Inr (JObj ps))"
| "revive JUndef = Inr JUndef"
| "revive JNull = Inr JNull"
| "revive (JBool b) = Inr (JBool b)"
| "revive (JNum n) = Inr (JNum n)"
| "revive (JBig n) = Inr (JBig n)"
| "reviveList [] = Inr []"
| "reviveList (x # xs) =
     (case revive x of
        Inl e \<Rightarrow> Inl e
      | Inr y \<Rightarrow> (case reviveList xs of Inl e \<Rightarrow> Inl e | Inr ys \<Rightarrow> Inr (y # ys)))"
| "reviveProps [] = Inr []"
| "reviveProps (kv # kvs) =
     (case revive (snd kv) of
        Inl e \<Rightarrow> Inl e
      | Inr y \<Rightarrow> (case reviveProps kvs of Inl e \<Rightarrow> Inl e | Inr ps \<Rightarrow> Inr ((fst kv, y) # ps)))"

text \<open>
  The text that \<open>JSON.parse\<close> reads. White space is blank, tab, line feed and carriage
  return. A string literal ends at the first unescaped quote; a backslash introduces one of
  the escapes \<open>\" \\ \/ \b \f \n \r \t\<close> or \<open>\uXXXX\<close>; a raw control character is not
  allowed. The functions below are called after the opening quote has been read and return
  the string and the rest of the text. Characters are the 8-bit characters of the model, so
  an escape \<open>\uXXXX\<close> above \<open>\u00FF\<close> is not read.
\<close>

definition isJsonWhite :: "char \<Rightarrow> bool" where
  "isJsonWhite c = (c = CHR 0x20 \<or> c = CHR 0x09 \<or> c = CHR 0x0A \<or> c = CHR 0x0D)"

definition skipWhite :: "string \<Rightarrow> string" where
  "skipWhite s = dropWhile isJsonWhite s"

definition hex4 :: "char \<Rightarrow> char \<Rightarrow> char \<Rightarrow> char \<Rightarrow> nat option" where
  "hex4 a b c d =
     (case (digitValue a, digitValue b, digitValue c, digitValue d) of
        (Some w, Some x, Some y, Some z) \<Rightarrow>
          if w < 16 \<and> x < 16 \<and> y < 16 \<and> z < 16 then Some (((w * 16 + x) * 16 + y) * 16 + z)
          else None
      | _ \<Rightarrow> None)"

definition consChar :: "char \<Rightarrow> (string \<times> string) option \<Rightarrow> (string \<times> string) option" where
  "consChar c r = (case r of None \<Rightarrow> None | Some (s, rest) \<Rightarrow> Some (c # s, rest))"

fun parseString :: "string \<Rightarrow> (string \<times> string) option" where
  "parseString [] = None"
| "parseString (c # r) =
     (if c = CHR 0x22 then Some ([], r)
      else if c = CHR 0x5C then
        (case r of
           [] \<Rightarrow> None
         | t # r' \<Rightarrow>
             if t = CHR 0x22 then consChar (CHR 0x22) (parseString r')
             else if t = CHR 0x5C then consChar (CHR 0x5C) (parseString r')
             else if t = CHR ''/'' then consChar (CHR ''/'') (parseString r')
             else if t = CHR ''b'' then consChar (CHR 0x08) (parseString r')
             else if t = CHR ''f'' then consChar (CHR 0x0C) (parseString r')
             else if t = CHR ''n'' then consChar (CHR 0x0A) (parseString r')
             else if t = CHR ''r'' then consChar (CHR 0x0D) (parseString r')
             else if t = CHR ''t'' then consChar (CHR 0x09) (parseString r')
             else if t = CHR ''u'' then
               (case r' of
                  h1 # h2 # h3 # h4 # r'' \<Rightarrow>
                    (case hex4 h1 h2 h3 h4 of
                       None \<Rightarrow> None
                     | Some n \<Rightarrow> if n < 256 then consChar (char_of n) (parseString r'') else None)
                | _ \<Rightarrow> None)
             else None)
      else if (of_char c :: nat) < 32 then None
      else consChar c (parseString r))"

text \<open>
  A number literal is an optional minus sign and decimal digits without a leading zero
  (other than the single digit 0). The numbers of the model are integers: a literal that
  goes on with a fraction or an exponent is not read.
\<close>

definition isDigit :: "char \<Rightarrow> bool" where
  "isDigit c = (48 \<le> (of_char c :: nat) \<and> (of_char c :: nat) \<le> 57)"

definition parseNumber :: "string \<Rightarrow> (jv \<times> string) option" where
  "parseNumber s =
     (let neg = (s \<noteq> [] \<and> hd s = CHR ''-'');
          r = (if neg then tl s else s);
          ds = takeWhile isDigit r;
          rest = dropWhile isDigit r
      in if ds = [] then None
         else if length ds > 1 \<and> hd ds = CHR ''0'' then None
         else if rest \<noteq> [] \<and> (hd rest = CHR ''.'' \<or> hd rest = CHR ''e'' \<or> hd rest = CHR ''E'') then None
         else (case parseDigits 10 ds of
                 None \<Rightarrow> None
               | Some n \<Rightarrow> Some (JNum (if neg then - int n else int n), rest)))"

text \<open>
  The values: \<open>parseValue\<close> reads one value and returns it with the rest of the text,
  \<open>parseElements\<close> reads the elements of an array after the opening bracket and
  \<open>parseMembers\<close> the members of an object after the opening brace, both up to the closing
  one. A member creates an own property of the object or overwrites the one of that name
  (also for the name \<open>__proto__\<close>). The first argument bounds the depth of the nested
  calls; of two calls nested one in the other, the inner one or the one nested in it starts
  at least one character further in the text, so the bound that \<open>JSON_parse\<close> starts with,
  more than twice the length of the text, cannot be used up. \<open>None\<close> is the
  \<open>SyntaxError\<close> of \<open>JSON.parse\<close>.
\<close>

fun parseValue :: "nat \<Rightarrow> string \<Rightarrow> (jv \<times> string) option"
  and parseElements :: "nat \<Rightarrow> string \<Rightarrow> jv list \<Rightarrow> (jv \<times> string) option"
  and parseMembers :: "nat \<Rightarrow> string \<Rightarrow> (string \<times> jv) list \<Rightarrow> (jv \<times> string) option" where
  "parseValue 0 s = None"
| "parseValue (Suc n) s =
     (case skipWhite s of
        [] \<Rightarrow> None
      | c # r \<Rightarrow>
          if c = CHR ''{'' then
            (case skipWhite r of
               [] \<Rightarrow> None
             | d # r' \<Rightarrow> if d = CHR ''}'' then Some (JObj [], r') else parseMembers n (d # r') [])
          else if c = CHR ''['' then
            (case skipWhite r of
               [] \<Rightarrow> None
             | d # r' \<Rightarrow> if d = CHR '']'' then Some (JArr [], r') else parseElements n (d # r') [])
          else if c = CHR 0x22 then
            (case parseString r of None \<Rightarrow> None | Some (str, r') \<Rightarrow> Some (JStr str, r'))
          else if c = CHR ''t'' then
            (if take 3 r = ''rue'' then Some (JBool True, drop 3 r) else None)
          else if c = CHR ''f'' then
            (if take 4 r = ''alse'' then Some (JBool False, drop 4 r) else None)
          else if c = CHR ''n'' then
            (if take 3 r = ''ull'' then Some (JNull, drop 3 r) else None)
          else parseNumber (c # r))"
| "parseElements 0 s acc = None"
| "parseElements (Suc n) s acc =
     (case parseValue n s of
        None \<Rightarrow> None
      | Some (v, r) \<Rightarrow>
          (case skipWhite r of
             [] \<Rightarrow> None
           | d # r' \<Rightarrow>
               if d = CHR '','' then parseElements n r' (acc @ [v])
               else if d = CHR '']'' then Some (JArr (acc @ [v]), r')
               else None))"
| "parseMembers 0 s acc = None"
| "parseMembers (Suc n) s acc =
     (case s of
        [] \<Rightarrow> None
      | q # r \<Rightarrow>
          if q \<noteq> CHR 0x22 then None
          else
            (case parseString r of
               None \<Rightarrow> None
             | Some (k, r1) \<Rightarrow>
                 (case skipWhite r1 of
                    [] \<Rightarrow> None
                  | c # r2 \<Rightarrow>
                      if c \<noteq> CHR '':'' then None
                      else
                        (case parseValue n r2 of
                           None \<Rightarrow> None
                         | Some (v, r3) \<Rightarrow>
                             (case skipWhite r3 of
                                [] \<Rightarrow> None
                              | d # r4 \<Rightarrow>
                                  if d = CHR '','' then parseMembers n (skipWhite r4) (defineOwn acc k v)
                                  else if d = CHR ''}'' then Some (JObj (defineOwn acc k v), r4)
                                  else None)))))"

definition JSON_parse :: "string \<Rightarrow> jv option" where
  "JSON_parse text =
     (case parseValue (2 * length text + 2) text of
        None \<Rightarrow> None
      | Some (v, rest) \<Rightarrow> if skipWhite rest = [] then Some v else None)"

text \<open>\<open>parsed?.k\<close>: the property of an object, \<open>undefined\<close> when it is missing or the
  value is not an object.\<close>

definition getProp :: "jv \<Rightarrow> string \<Rightarrow> jv" where
  "getProp v k =
     (case v of
        JObj kvs \<Rightarrow> (case map_of kvs k of None \<Rightarrow> JUndef | Some x \<Rightarrow> x)
      | _ \<Rightarrow> JUndef)"

fun isNumber :: "jv \<Rightarrow> bool" where
  "isNumber (JNum n) = True" | "isNumber v = False"
fun isString :: "jv \<Rightarrow> bool" where
  "isString (JStr s) = True" | "isString v = False"
fun isArray :: "jv \<Rightarrow> bool" where
  "isArray (JArr xs) = True" | "isArray v = False"

text \<open>
  \<open>importTx(json)\<close>: \<open>JSON.parse(json, reviver)\<close> reads the text and applies the reviver
  to what it has read; four checks follow.
\<close>

definition importTx :: "string \<Rightarrow> error + jv" where
  "importTx json =
     (case JSON_parse json of
        None \<Rightarrow> Inl JsonSyntaxError
      | Some document \<Rightarrow>
          (case revive document of
             Inl e \<Rightarrow> Inl e
           | Inr parsed \<Rightarrow>
               if \<not> isNumber (getProp parsed ''version'') then Inl MissingVersion
               else if \<not> isString (getProp parsed ''unsignedHash'') then Inl MissingUnsignedHash
               else if \<not> isArray (getProp parsed ''spends'') then Inl MissingSpends
               else if \<not> isArray (getProp parsed ''outputs'') then Inl MissingOutputs
               else Inr parsed))"

text \<open>
  A \<open>Transaction\<close> as the object the encoders receive. An optional field that is absent is a
  property with value \<open>undefined\<close>; the signature record lists its entries by key.
\<close>

definition optStr :: "string option \<Rightarrow> jv" where
  "optStr s = (case s of None \<Rightarrow> JUndef | Some x \<Rightarrow> JStr x)"

fun seedsValue :: "Seeds \<Rightarrow> jv" where
  "seedsValue (Pkh s) =
     JObj [(''kind'', JStr ''%pkh''), (''threshold'', JNum (threshold s)),
           (''pkhs'', JArr (map JStr (pkhs s))),
           (''signatures'',
            JObj (map (\<lambda>k. (k, JStr (the (fmlookup (signatures s) k))))
                      (sorted_list_of_fset (fmdom (signatures s)))))]"
| "seedsValue (Hax p) = JObj [(''kind'', JStr ''%hax''), (''preimage'', optStr p)]"
| "seedsValue (Tim nb inner) =
     JObj [(''kind'', JStr ''%tim''), (''notBefore'', JNum nb), (''inner'', seedsValue inner)]"
| "seedsValue Brn = JObj [(''kind'', JStr ''%brn'')]"

definition spendValue :: "Spend \<Rightarrow> jv" where
  "spendValue s = JObj [(''noteId'', JStr (noteId s)), (''seeds'', seedsValue (seeds s))]"

definition outputValue :: "Output \<Rightarrow> jv" where
  "outputValue o' =
     JObj [(''address'', JStr (address o')), (''amount'', JBig (amount o')),
           (''assetId'', optStr (assetId o'))]"

definition txValue :: "Transaction \<Rightarrow> jv" where
  "txValue tx =
     JObj [(''version'', JNum (version tx)), (''network'', optStr (network tx)),
           (''spends'', JArr (map spendValue (spends tx))),
           (''outputs'', JArr (map outputValue (outputs tx))),
           (''fee'', JBig (fee tx)), (''unsignedHash'', JStr (unsignedHash tx))]"

definition exportTx :: "Transaction \<Rightarrow> string" where
  "exportTx tx = (let canonical = deepCanonicalize False (txValue tx) in canonicalStringify canonical)"

section \<open>Concrete inputs\<close>

text \<open>
  A small provider: the hash of a byte string is \<open>h\<close> followed by its length, the hash of
  a public key is the key prefixed by \<open>H\<close>, and the only signature that verifies for a key
  is \<open>sig:\<close> followed by the key.
\<close>

definition demoCrypto :: CryptoProvider where
  "demoCrypto = \<lparr>hash = (\<lambda>b. ''h'' @ toString (int (length b))),
                 hashPubkey = (\<lambda>pk. ''H'' @ pk),
                 verify = (\<lambda>pk msg sig. sig = ''sig:'' @ pk)\<rparr>"

definition demoLock :: Lock where
  "demoLock = LPkh 2 [''HP2'', ''HP1'']"

definition demoNote1 :: Note where
  "demoNote1 = \<lparr>name = (''h50'', ''2''), noteAssetId = None, noteAmount = 70, lock = demoLock\<rparr>"

definition demoNote2 :: Note where
  "demoNote2 = \<lparr>name = (''h50'', ''1''), noteAssetId = None, noteAmount = 40, lock = demoLock\<rparr>"

definition demoOutput :: Output where
  "demoOutput = \<lparr>address = ''A'', amount = 100, assetId = None\<rparr>"

definition demoTx :: Transaction where
  "demoTx = \<lparr>version = 1, network = None,
      spends = [\<lparr>noteId = ''h50.1'',
                 seeds = Pkh \<lparr>threshold = 2, pkhs = [''HP1'', ''HP2''], signatures = fmempty\<rparr>\<rparr>,
                \<lparr>noteId = ''h50.2'',
                 seeds = Pkh \<lparr>threshold = 2, pkhs = [''HP1'', ''HP2''], signatures = fmempty\<rparr>\<rparr>],
      outputs = [demoOutput], fee = 10, unsignedHash = ''h300''\<rparr>"

definition demoTxSigned :: Transaction where
  "demoTxSigned = \<lparr>version = 1, network = None,
      spends = [\<lparr>noteId = ''h50.1'',
                 seeds = Pkh \<lparr>threshold = 2, pkhs = [''HP1'', ''HP2''],
                              signatures = fmupd ''P1'' ''sig:P1'' fmempty\<rparr>\<rparr>,
                \<lparr>noteId = ''h50.2'',
                 seeds = Pkh \<lparr>threshold = 2, pkhs = [''HP1'', ''HP2''], signatures = fmempty\<rparr>\<rparr>],
      outputs = [demoOutput], fee = 10, unsignedHash = ''h300''\<rparr>"

definition demoTxBadSig :: Transaction where
  "demoTxBadSig = \<lparr>version = 1, network = None,
      spends = [\<lparr>noteId = ''h50.1'',
                 seeds = Pkh \<lparr>threshold = 2, pkhs = [''HP1'', ''HP2''],
                              signatures = fmupd ''P1'' ''garbage'' fmempty\<rparr>\<rparr>,
                \<lparr>noteId = ''h50.2'',
                 seeds = Pkh \<lparr>threshold = 2, pkhs = [''HP1'', ''HP2''], signatures = fmempty\<rparr>\<rparr>],
      outputs = [demoOutput], fee = 10, unsignedHash = ''h300''\<rparr>"

definition demoSigner :: Signer where
  "demoSigner = \<lparr>pubkey = ''P1'', sign = (\<lambda>bytes. Some ''sig:P1'')\<rparr>"

section \<open>Properties used by the theorems\<close>

text \<open>
  \<open>attachedAt nid pk sig s s'\<close>: \<open>s'\<close> is \<open>s\<close> when the note id differs from \<open>nid\<close>;
  otherwise \<open>s\<close> is a \<open>%pkh\<close> spend and \<open>s'\<close> is \<open>s\<close> with \<open>pk \<mapsto> sig\<close> stored in its
  signature map and nothing else changed.
\<close>

definition attachedAt :: "string \<Rightarrow> PubKey \<Rightarrow> Signature \<Rightarrow> Spend \<Rightarrow> Spend \<Rightarrow> bool" where
  "attachedAt nid pk sig s s' =
     (if noteId s \<noteq> nid then s' = s
      else noteId s' = noteId s \<and>
           (case seeds s of
              Pkh ps \<Rightarrow> seeds s' = Pkh (ps\<lparr>signatures := fmupd pk sig (signatures ps)\<rparr>)
            | _ \<Rightarrow> False))"

text \<open>
  \<open>attachRejects crypto pk s\<close>: the seeds of \<open>s\<close> are not \<open>%pkh\<close>, or \<open>pk\<close> is not
  authorised for them.
\<close>

definition attachRejects :: "CryptoProvider \<Rightarrow> PubKey \<Rightarrow> Spend \<Rightarrow> bool" where
  "attachRejects crypto pk s =
     (case seeds s of Pkh ps \<Rightarrow> \<not> pkhIsAllowed crypto pk (pkhs ps) | _ \<Rightarrow> True)"

text \<open>
  A lock that \<open>seedsFromLock\<close> accepts: every \<open>%pkh\<close> lock in it, also under \<open>%tim\<close>,
  has distinct pkhs and a threshold between 1 and their number.
\<close>

fun lockValid :: "Lock \<Rightarrow> bool" where
  "lockValid (LPkh t ps) = (distinct ps \<and> 0 < t \<and> t \<le> int (length ps))"
| "lockValid (LHax h) = True"
| "lockValid (LTim nb inner) = lockValid inner"
| "lockValid LBrn = True"

text \<open>Integrity of a note: \<open>name[0]\<close> is the hash of its lock and its amount is positive.\<close>

definition noteIntegrity :: "CryptoProvider \<Rightarrow> Note \<Rightarrow> bool" where
  "noteIntegrity crypto n = (fst (name n) = lockHash (lock n) crypto \<and> 0 < noteAmount n)"

text \<open>The output list after the optional change output has been appended.\<close>

definition withChange :: "Output list \<Rightarrow> Output option \<Rightarrow> Output list" where
  "withChange outs change = (case change of None \<Rightarrow> outs | Some c \<Rightarrow> outs @ [c])"

definition dupLock :: Lock where
  "dupLock = LPkh 1 [''HP1'', ''HP1'']"

definition dupNote :: Note where
  "dupNote = \<lparr>name = (''h50'', ''0''), noteAssetId = None, noteAmount = 5, lock = dupLock\<rparr>"

definition oneOutput :: Output where
  "oneOutput = \<lparr>address = ''A'', amount = 1, assetId = None\<rparr>"

text \<open>The local values of \<open>buildSimpleTransaction\<close>: \<open>totalOut\<close>, \<open>changeAmount\<close>,
  \<open>outputs\<close> and \<open>change\<close>.\<close>

definition recipientTotal :: "(string \<times> int) list \<Rightarrow> int" where
  "recipientTotal recipients = foldl (\<lambda>acc r. acc + snd r) 0 recipients"

definition changeAmount :: "Note list \<Rightarrow> (string \<times> int) list \<Rightarrow> int \<Rightarrow> int" where
  "changeAmount inputs recipients feeArg =
     sumInputs inputs - recipientTotal recipients - feeArg"

definition recipientOutputs :: "(string \<times> int) list \<Rightarrow> Output list" where
  "recipientOutputs recipients =
     map (\<lambda>r. \<lparr>address = fst r, amount = snd r, assetId = None\<rparr>) recipients"

definition changeOutput ::
  "Note list \<Rightarrow> (string \<times> int) list \<Rightarrow> int \<Rightarrow> string option \<Rightarrow> Output option" where
  "changeOutput inputs recipients feeArg changeAddress =
     (case changeAddress of
        Some a \<Rightarrow>
          if 0 < changeAmount inputs recipients feeArg \<and> a \<noteq> []
          then Some \<lparr>address = a, amount = changeAmount inputs recipients feeArg,
                     assetId = None\<rparr>
          else None
      | None \<Rightarrow> None)"

definition demoSimpleTx :: Transaction where
  "demoSimpleTx = \<lparr>version = 1, network = None,
      spends = [\<lparr>noteId = ''h50.1'',
                 seeds = Pkh \<lparr>threshold = 2, pkhs = [''HP1'', ''HP2''], signatures = fmempty\<rparr>\<rparr>,
                \<lparr>noteId = ''h50.2'',
                 seeds = Pkh \<lparr>threshold = 2, pkhs = [''HP1'', ''HP2''], signatures = fmempty\<rparr>\<rparr>],
      outputs = [\<lparr>address = ''A'', amount = 60, assetId = None\<rparr>,
                 \<lparr>address = ''C'', amount = 10, assetId = None\<rparr>],
      fee = 40, unsignedHash = ''h346''\<rparr>"

definition demoSimpleTxNoChange :: Transaction where
  "demoSimpleTxNoChange = \<lparr>version = 1, network = None,
      spends = [\<lparr>noteId = ''h50.1'',
                 seeds = Pkh \<lparr>threshold = 2, pkhs = [''HP1'', ''HP2''], signatures = fmempty\<rparr>\<rparr>,
                \<lparr>noteId = ''h50.2'',
                 seeds = Pkh \<lparr>threshold = 2, pkhs = [''HP1'', ''HP2''], signatures = fmempty\<rparr>\<rparr>],
      outputs = [\<lparr>address = ''A'', amount = 60, assetId = None\<rparr>],
      fee = 40, unsignedHash = ''h299''\<rparr>"

text \<open>
  A provider whose signatures are bound to the signed bytes: the signature of \<open>pk\<close> over
  \<open>msg\<close> is \<open>pk\<close>, a colon and the hash of \<open>msg\<close>.
\<close>

definition bindingCrypto :: CryptoProvider where
  "bindingCrypto = demoCrypto\<lparr>verify := (\<lambda>pk msg sig. sig = pk @ '':'' @ hash demoCrypto msg)\<rparr>"

definition bindingSigner :: Signer where
  "bindingSigner = \<lparr>pubkey = ''P1'', sign = (\<lambda>bytes. Some (''P1:'' @ hash demoCrypto bytes))\<rparr>"

definition demoTxBound :: Transaction where
  "demoTxBound = \<lparr>version = 1, network = None,
      spends = [\<lparr>noteId = ''h50.1'',
                 seeds = Pkh \<lparr>threshold = 2, pkhs = [''HP1'', ''HP2''],
                              signatures = fmupd ''P1'' ''P1:h300'' fmempty\<rparr>\<rparr>,
                \<lparr>noteId = ''h50.2'',
                 seeds = Pkh \<lparr>threshold = 2, pkhs = [''HP1'', ''HP2''], signatures = fmempty\<rparr>\<rparr>],
      outputs = [demoOutput], fee = 10, unsignedHash = ''h300''\<rparr>"

text \<open>
  Seeds of a 2-of-2 lock over \<open>HP1\<close> and \<open>HP2\<close> in which the first member alone has
  signed twice: under the public key \<open>P1\<close>, whose hash is \<open>HP1\<close>, and under the literal
  \<open>HP1\<close>.
\<close>

definition demoSeedsTwoEncodings :: PkhSeeds where
  "demoSeedsTwoEncodings = \<lparr>threshold = 2, pkhs = [''HP1'', ''HP2''],
      signatures = fmupd ''HP1'' ''sig:HP1'' (fmupd ''P1'' ''sig:P1'' fmempty)\<rparr>"

definition demoTxTwoEncodings :: Transaction where
  "demoTxTwoEncodings = \<lparr>version = 1, network = None,
      spends = [\<lparr>noteId = ''h50.1'', seeds = Pkh demoSeedsTwoEncodings\<rparr>,
                \<lparr>noteId = ''h50.2'',
                 seeds = Pkh \<lparr>threshold = 2, pkhs = [''HP1'', ''HP2''], signatures = fmempty\<rparr>\<rparr>],
      outputs = [demoOutput], fee = 10, unsignedHash = ''h300''\<rparr>"

text \<open>
  The member pkhs of the seeds that carry a signature: a signature is attached under a
  public key that hashes to the pkh, or under the pkh itself.
\<close>

definition signedMembers :: "PkhSeeds \<Rightarrow> CryptoProvider \<Rightarrow> Hash list" where
  "signedMembers s crypto =
     filter (\<lambda>h. list_ex (\<lambda>pk. hashPubkey crypto pk = h \<or> pk = h)
                     (sorted_list_of_fset (fmdom (signatures s))))
            (remdups (pkhs s))"

definition mkSpend :: "string \<Rightarrow> int \<Rightarrow> BuilderSpend" where
  "mkSpend i a = \<lparr>inputId = i, assets = a, spendFee = 0, spendSeeds = []\<rparr>"

text \<open>
  The spare capacity of a spend, as the specification words it: the note amount minus what is
  already used, which is the fee already on the spend plus the amounts of the seeds already
  on it; never negative. \<open>spareBefore sps i\<close> is the spare capacity of the spends before
  position \<open>i\<close>.
\<close>

definition spare :: "BuilderSpend \<Rightarrow> int" where
  "spare spend = max 0 (assets spend - (spendFee spend + sum_list (map snd (spendSeeds spend))))"

definition spareBefore :: "BuilderSpend list \<Rightarrow> nat \<Rightarrow> int" where
  "spareBefore sps i = sum_list (map spare (take i sps))"

text \<open>
  A list of \<open>(lockId, amount)\<close> written unit by unit: each entry contributes its lock id
  \<open>amount\<close> times. Splitting an entry in two leaves the unit list unchanged.
\<close>

definition units :: "(string \<times> int) list \<Rightarrow> string list" where
  "units q = concat (map (\<lambda>p. replicate (nat (snd p)) (fst p)) q)"

abbreviation positive :: "(string \<times> int) list \<Rightarrow> bool" where
  "positive q \<equiv> list_all (\<lambda>item. 0 < snd item) q"

text \<open>The queue of \<open>distributeAmountsAcrossSpends\<close>: the positive demands, in order.\<close>

definition demand :: "PendingAmount list \<Rightarrow> PendingAmount list" where
  "demand amounts = filter (\<lambda>item. snd item > 0) amounts"

text \<open>
  Cutting a queue of demands at \<open>c\<close> units: \<open>takeUnits c q\<close> is the front of the queue worth
  \<open>c\<close> units (whole demands as long as they fit, then the part of the next demand that
  still fits), \<open>dropUnits c q\<close> is what is left of the queue (starting with the rest of a
  demand that was cut).
\<close>

fun takeUnits :: "int \<Rightarrow> (string \<times> int) list \<Rightarrow> (string \<times> int) list" where
  "takeUnits c [] = []"
| "takeUnits c (d # q) =
     (if c \<le> 0 then []
      else if snd d \<le> c then d # takeUnits (c - snd d) q
      else [(fst d, c)])"

fun dropUnits :: "int \<Rightarrow> (string \<times> int) list \<Rightarrow> (string \<times> int) list" where
  "dropUnits c [] = []"
| "dropUnits c (d # q) =
     (if c \<le> 0 then d # q
      else if snd d \<le> c then dropUnits (c - snd d) q
      else (fst d, snd d - c) # q)"

text \<open>
  What the spend at position \<open>i\<close> is to receive: the piece of the demand queue that starts
  after the spare capacity of the spends before it and is as long as its own spare capacity.
\<close>

definition allotted :: "BuilderSpend list \<Rightarrow> PendingAmount list \<Rightarrow> nat \<Rightarrow> BuilderSeed list" where
  "allotted sps amounts i =
     takeUnits (spare (sps ! i)) (dropUnits (spareBefore sps i) (demand amounts))"

text \<open>Two spends that already carry a fee and a seed: their spare capacities are 70 and 40.\<close>

definition usedSpend1 :: BuilderSpend where
  "usedSpend1 = \<lparr>inputId = ''n1'', assets = 100, spendFee = 10, spendSeeds = [(''X'', 20)]\<rparr>"

definition usedSpend2 :: BuilderSpend where
  "usedSpend2 = \<lparr>inputId = ''n2'', assets = 45, spendFee = 2, spendSeeds = [(''Y'', 3)]\<rparr>"

text \<open>
  Reading back one escaped character: the inverse of \<open>escapeChar\<close>, used to show that the
  quoted form determines the string.
\<close>

definition hexVal :: "char \<Rightarrow> nat" where
  "hexVal h = length (takeWhile (\<lambda>x. x \<noteq> h) ''0123456789abcdef'')"

definition unescape1 :: "string \<Rightarrow> (char \<times> string) option" where
  "unescape1 s =
     (case s of
        [] \<Rightarrow> None
      | a # r \<Rightarrow>
          if a \<noteq> CHR 0x5C then Some (a, r)
          else (case r of
                  [] \<Rightarrow> None
                | t # r' \<Rightarrow>
                    if t = CHR 0x22 then Some (CHR 0x22, r')
                    else if t = CHR 0x5C then Some (CHR 0x5C, r')
                    else if t = CHR ''b'' then Some (CHR 0x08, r')
                    else if t = CHR ''t'' then Some (CHR 0x09, r')
                    else if t = CHR ''n'' then Some (CHR 0x0A, r')
                    else if t = CHR ''f'' then Some (CHR 0x0C, r')
                    else if t = CHR ''r'' then Some (CHR 0x0D, r')
                    else (case r' of
                            z1 # z2 # h1 # h2 # r'' \<Rightarrow>
                              Some (char_of (16 * hexVal h1 + hexVal h2), r'')
                          | _ \<Rightarrow> None)))"

text \<open>
  The errors of \<open>mergePartiallySignedTx\<close> other than the hash mismatch: the seeds of a
  spend present in both transactions do not agree (kind, threshold, pkhs, \<open>notBefore\<close>).
\<close>

fun isLockMismatch :: "error \<Rightarrow> bool" where
  "isLockMismatch (MergeKindMismatch nid) = True"
| "isLockMismatch MergeThresholdDiffers = True"
| "isLockMismatch MergePkhsDiffer = True"
| "isLockMismatch MergeNotBeforeDiffers = True"
| "isLockMismatch SeedsKindDiffers = True"
| "isLockMismatch SeedsThresholdDiffers = True"
| "isLockMismatch SeedsPkhsDiffer = True"
| "isLockMismatch SeedsNotBeforeDiffers = True"
| "isLockMismatch e = False"

text \<open>
  \<open>lockMismatch sa sb\<close>: the seeds differ in kind, or both are \<open>%pkh\<close> and differ in
  threshold or in their sorted pkhs.
\<close>

definition lockMismatch :: "Spend \<Rightarrow> Spend \<Rightarrow> bool" where
  "lockMismatch sa sb =
     (seedsKind (seeds sa) \<noteq> seedsKind (seeds sb)
      \<or> (case (seeds sa, seeds sb) of
            (Pkh A, Pkh B) \<Rightarrow> threshold A \<noteq> threshold B \<or> sort (pkhs A) \<noteq> sort (pkhs B)
          | _ \<Rightarrow> False))"

text \<open>
  \<open>mergedWith sa sb sm\<close>: the seeds of \<open>sa\<close> and \<open>sb\<close> agree in kind, \<open>sm\<close> keeps the note
  id, and for \<open>%pkh\<close> seeds threshold and sorted pkhs agree and \<open>sm\<close> carries the seeds of
  \<open>sa\<close> with the signature map of \<open>sa\<close> overridden by that of \<open>sb\<close>.
  \<open>mergedAt bs sa sm\<close>: \<open>sm\<close> is \<open>sa\<close> when no spend of \<open>bs\<close> has its note id, and is merged
  with the spend \<open>bByNote\<close> finds otherwise.
\<close>

definition mergedWith :: "Spend \<Rightarrow> Spend \<Rightarrow> Spend \<Rightarrow> bool" where
  "mergedWith sa sb sm =
     (seedsKind (seeds sa) = seedsKind (seeds sb) \<and> noteId sm = noteId sa
      \<and> (case (seeds sa, seeds sb) of
            (Pkh A, Pkh B) \<Rightarrow>
              threshold A = threshold B \<and> sort (pkhs A) = sort (pkhs B)
              \<and> seeds sm = Pkh (A\<lparr>signatures := signatures A ++\<^sub>f signatures B\<rparr>)
          | _ \<Rightarrow> True))"

definition mergedAt :: "Spend list \<Rightarrow> Spend \<Rightarrow> Spend \<Rightarrow> bool" where
  "mergedAt bs sa sm =
     (case bByNote bs (noteId sa) of None \<Rightarrow> sm = sa | Some sb \<Rightarrow> mergedWith sa sb sm)"

definition mergeStep :: "Spend list \<Rightarrow> Spend \<Rightarrow> error + Spend" where
  "mergeStep bs sa = (case bByNote bs (noteId sa) of None \<Rightarrow> Inr sa | Some sb \<Rightarrow> mergeSpend sa sb)"

definition demoTxP2 :: Transaction where
  "demoTxP2 = \<lparr>version = 1, network = None,
      spends = [\<lparr>noteId = ''h50.1'',
                 seeds = Pkh \<lparr>threshold = 2, pkhs = [''HP2'', ''HP1''],
                              signatures = fmupd ''P2'' ''sig:P2''
                                             (fmupd ''P1'' ''sigB:P1'' fmempty)\<rparr>\<rparr>],
      outputs = [demoOutput], fee = 10, unsignedHash = ''h300''\<rparr>"

definition demoTxMerged :: Transaction where
  "demoTxMerged = \<lparr>version = 1, network = None,
      spends = [\<lparr>noteId = ''h50.1'',
                 seeds = Pkh \<lparr>threshold = 2, pkhs = [''HP1'', ''HP2''],
                              signatures = fmupd ''P2'' ''sig:P2''
                                             (fmupd ''P1'' ''sigB:P1'' fmempty)\<rparr>\<rparr>,
                \<lparr>noteId = ''h50.2'',
                 seeds = Pkh \<lparr>threshold = 2, pkhs = [''HP1'', ''HP2''], signatures = fmempty\<rparr>\<rparr>],
      outputs = [demoOutput], fee = 10, unsignedHash = ''h300''\<rparr>"

definition demoTxThreshold1 :: Transaction where
  "demoTxThreshold1 = \<lparr>version = 1, network = None,
      spends = [\<lparr>noteId = ''h50.1'',
                 seeds = Pkh \<lparr>threshold = 1, pkhs = [''HP1'', ''HP2''], signatures = fmempty\<rparr>\<rparr>],
      outputs = [demoOutput], fee = 10, unsignedHash = ''h300''\<rparr>"

text \<open>
  Structural equality of two values, as the specification uses the word: values of the same
  kind, arrays with structurally equal elements position by position, objects with
  structurally equal values under the same keys. The order in which an object lists its
  properties does not count, and a property whose value is \<open>undefined\<close> (an absent optional
  field) counts as missing. It is decided on normal forms: \<open>undefined\<close> properties removed,
  properties sorted by key.
\<close>

fun normalForm :: "jv \<Rightarrow> jv" where
  "normalForm (JArr xs) = JArr (map normalForm xs)"
| "normalForm (JObj kvs) =
     JObj (sort_key fst (map (\<lambda>(k, v). (k, normalForm v)) (filter (\<lambda>(k, v). v \<noteq> JUndef) kvs)))"
| "normalForm v = v"

definition structurallyEqual :: "jv \<Rightarrow> jv \<Rightarrow> bool" where
  "structurallyEqual v w = (normalForm v = normalForm w)"

text \<open>
  No string value in \<open>v\<close> starts with the tag \<open>n:\<close>; no object of \<open>v\<close> has a property named
  \<open>__proto__\<close>; no array of \<open>v\<close> has an \<open>undefined\<close> element; the keys of every object of
  \<open>v\<close> are distinct.
\<close>

fun noTaggedString :: "jv \<Rightarrow> bool" where
  "noTaggedString (JStr s) = (take 2 s \<noteq> ''n:'')"
| "noTaggedString (JArr xs) = list_all noTaggedString xs"
| "noTaggedString (JObj kvs) = list_all (\<lambda>kv. noTaggedString (snd kv)) kvs"
| "noTaggedString v = True"

fun noProtoKey :: "jv \<Rightarrow> bool" where
  "noProtoKey (JArr xs) = list_all noProtoKey xs"
| "noProtoKey (JObj kvs) = list_all (\<lambda>kv. fst kv \<noteq> ''__proto__'' \<and> noProtoKey (snd kv)) kvs"
| "noProtoKey v = True"

fun noUndefinedElement :: "jv \<Rightarrow> bool" where
  "noUndefinedElement (JArr xs) = list_all (\<lambda>x. x \<noteq> JUndef \<and> noUndefinedElement x) xs"
| "noUndefinedElement (JObj kvs) = list_all (\<lambda>kv. noUndefinedElement (snd kv)) kvs"
| "noUndefinedElement v = True"

fun distinctKeys :: "jv \<Rightarrow> bool" where
  "distinctKeys (JArr xs) = list_all distinctKeys xs"
| "distinctKeys (JObj kvs) = (distinct (map fst kvs) \<and> list_all (\<lambda>kv. distinctKeys (snd kv)) kvs)"
| "distinctKeys v = True"

text \<open>The elements of an array value.\<close>

fun elements :: "jv \<Rightarrow> jv list" where
  "elements (JArr xs) = xs"
| "elements v = []"

text \<open>
  The place of a key in the enumeration order of an object: an array index stands at its
  number, every other key behind all of them. \<open>enumerated v\<close>: every object of \<open>v\<close> lists
  distinct keys in enumeration order.
\<close>

definition rank :: "string \<Rightarrow> int" where
  "rank k = (case arrayIndex k of None \<Rightarrow> 4294967295 | Some n \<Rightarrow> int n)"

fun enumerated :: "jv \<Rightarrow> bool" where
  "enumerated (JArr xs) = list_all enumerated xs"
| "enumerated (JObj kvs) =
     (distinct (map fst kvs) \<and> sorted (map (\<lambda>kv. rank (fst kv)) kvs)
      \<and> list_all (\<lambda>kv. enumerated (snd kv)) kvs)"
| "enumerated v = True"

text \<open>
  The document \<open>JSON.stringify\<close> writes for a value under the replacer of
  \<open>canonicalStringify\<close>: a bigint is the tagged string, a property whose value is
  \<open>undefined\<close> is left out, an \<open>undefined\<close> array element is \<open>null\<close>. \<open>dropUndefined\<close> only
  leaves out the \<open>undefined\<close> properties. \<open>plainDoc d\<close>: \<open>d\<close> is such a document, with the
  properties of every object in enumeration order.
\<close>

fun serialized :: "jv \<Rightarrow> jv" where
  "serialized (JBig n) = JStr (''n:'' @ toString n)"
| "serialized (JArr xs) = JArr (map (\<lambda>x. if x = JUndef then JNull else serialized x) xs)"
| "serialized (JObj kvs) =
     JObj (map (\<lambda>(k, v). (k, serialized v)) (filter (\<lambda>(k, v). v \<noteq> JUndef) kvs))"
| "serialized v = v"

fun dropUndefined :: "jv \<Rightarrow> jv" where
  "dropUndefined (JArr xs) = JArr (map dropUndefined xs)"
| "dropUndefined (JObj kvs) =
     JObj (map (\<lambda>(k, v). (k, dropUndefined v)) (filter (\<lambda>(k, v). v \<noteq> JUndef) kvs))"
| "dropUndefined v = v"

fun plainDoc :: "jv \<Rightarrow> bool" where
  "plainDoc JUndef = False"
| "plainDoc (JBig n) = False"
| "plainDoc (JArr xs) = list_all plainDoc xs"
| "plainDoc (JObj kvs) =
     (distinct (map fst kvs) \<and> sorted (map (\<lambda>kv. rank (fst kv)) kvs)
      \<and> list_all (\<lambda>kv. plainDoc (snd kv)) kvs)"
| "plainDoc v = True"

text \<open>
  The depth of calls the parser needs for a document, the text of one member of an object,
  and the texts that may follow a value: nothing, a comma or a closing bracket or brace.
\<close>

fun need :: "jv \<Rightarrow> nat" where
  "need (JArr xs) = Suc (sum_list (map (\<lambda>x. Suc (need x)) xs))"
| "need (JObj kvs) = Suc (sum_list (map (\<lambda>kv. Suc (need (snd kv))) kvs))"
| "need v = 1"

definition member :: "string \<times> jv \<Rightarrow> string" where
  "member kv = quoteJson (fst kv) @ '':'' @ canonicalStringify (snd kv)"

definition delim :: "string \<Rightarrow> bool" where
  "delim rest = (rest = [] \<or> hd rest = CHR '','' \<or> hd rest = CHR '']'' \<or> hd rest = CHR ''}'')"

definition digitStep :: "nat \<Rightarrow> nat option \<Rightarrow> char \<Rightarrow> nat option" where
  "digitStep base acc c =
     (case acc of
        None \<Rightarrow> None
      | Some n \<Rightarrow> (case digitValue c of
                     None \<Rightarrow> None
                   | Some d \<Rightarrow> if d < base then Some (n * base + d) else None))"

abbreviation canon :: "jv \<Rightarrow> jv" where "canon \<equiv> deepCanonicalize False"

text \<open>The loop of \<open>deepCanonicalize\<close> that rebuilds an object from its sorted properties.\<close>

definition rebuild :: "(string \<times> jv) list \<Rightarrow> (string \<times> jv) list" where
  "rebuild ps = foldl (\<lambda>out p. assign out (fst p) (snd p)) [] ps"

definition mapVals :: "(jv \<Rightarrow> jv) \<Rightarrow> (string \<times> jv) list \<Rightarrow> (string \<times> jv) list" where
  "mapVals g kvs = map (\<lambda>(k, v). (k, g v)) kvs"

text \<open>
  Transactions for the export: one with an output address that starts with \<open>n:\<close>, one with
  such a network name, one whose spend is locked to the hash of the public key \<open>__proto__\<close>,
  without and with the signature of that key, and one with signatures under the public keys
  \<open>10\<close>, \<open>9\<close> and \<open>P1\<close>.
\<close>

definition demoTxTagged :: Transaction where
  "demoTxTagged = demoTx\<lparr>outputs := [\<lparr>address = ''n:1'', amount = 100, assetId = None\<rparr>]\<rparr>"

definition demoTxTaggedNetwork :: Transaction where
  "demoTxTaggedNetwork = demoTx\<lparr>network := Some ''n:main''\<rparr>"

definition demoTxProtoUnsigned :: Transaction where
  "demoTxProtoUnsigned = demoTx\<lparr>spends :=
      [\<lparr>noteId = ''h50.1'',
        seeds = Pkh \<lparr>threshold = 2, pkhs = [''H__proto__'', ''HP2''], signatures = fmempty\<rparr>\<rparr>]\<rparr>"

definition demoTxProto :: Transaction where
  "demoTxProto = demoTx\<lparr>spends :=
      [\<lparr>noteId = ''h50.1'',
        seeds = Pkh \<lparr>threshold = 2, pkhs = [''H__proto__'', ''HP2''],
                     signatures = fmupd ''__proto__'' ''sp'' fmempty\<rparr>\<rparr>]\<rparr>"

definition demoTxIndexed :: Transaction where
  "demoTxIndexed = demoTx\<lparr>spends :=
      [\<lparr>noteId = ''h50.1'',
        seeds = Pkh \<lparr>threshold = 2, pkhs = [''HP1'', ''HP2''],
                     signatures = fmupd ''10'' ''s10'' (fmupd ''9'' ''s9''
                                    (fmupd ''P1'' ''sig:P1'' fmempty))\<rparr>\<rparr>]\<rparr>"

section \<open>Auxiliary lemmas\<close>

lemma mapE_Inr_list_all2:
  "mapE f xs = Inr ys \<Longrightarrow> list_all2 (\<lambda>x y. f x = Inr y) xs ys"
  by (induction xs arbitrary: ys) (auto split: sum.splits)

lemma mapE_Inl_iff:
  "(\<exists>e. mapE f xs = Inl e) \<longleftrightarrow> (\<exists>x \<in> set xs. \<exists>e. f x = Inl e)"
  by (induction xs) (auto split: sum.splits)

lemma mapE_id:
  "(\<forall>x \<in> set xs. f x = Inr x) \<Longrightarrow> mapE f xs = Inr xs"
  by (induction xs) auto




lemma demo_build:
  "buildUnsignedTransaction None None [demoNote1, demoNote2] [demoOutput] 10 None demoCrypto
     = Inr demoTx"
  by code_simp

lemma demo_attach:
  "attachSignatureToSpend demoTx ''h50.1'' ''P1'' ''sig:P1'' demoCrypto = Inr demoTxSigned"
  by code_simp

lemma demo_sign: "signSpend demoTx ''h50.1'' demoSigner demoCrypto = Inr demoTxSigned"
  by code_simp

lemma attachToSpend_attachedAt:
  "attachToSpend nid pk sig crypto s = Inr s' \<Longrightarrow> attachedAt nid pk sig s s'"
  by (auto simp: attachToSpend_def attachedAt_def split: if_splits Seeds.splits)

lemma attach_frame:
  assumes "attachSignatureToSpend tx nid pk sig crypto = Inr tx'"
  shows "unsignedHash tx' = unsignedHash tx \<and> version tx' = version tx
       \<and> network tx' = network tx \<and> outputs tx' = outputs tx \<and> fee tx' = fee tx
       \<and> list_all2 (attachedAt nid pk sig) (spends tx) (spends tx')"
proof -
  from assms obtain sp where m: "mapE (attachToSpend nid pk sig crypto) (spends tx) = Inr sp"
    and t: "tx' = tx\<lparr>spends := sp\<rparr>"
    by (auto simp: attachSignatureToSpend_def split: sum.splits)
  have "list_all2 (attachedAt nid pk sig) (spends tx) sp"
    using mapE_Inr_list_all2[OF m]
    by (rule list_all2_mono) (auto dest: attachToSpend_attachedAt)
  with t show ?thesis by simp
qed

lemma signSpend_attach:
  assumes "signSpend tx nid signer crypto = Inr tx'"
  shows "\<exists>sig. attachSignatureToSpend tx nid (pubkey signer) sig crypto = Inr tx'
           \<and> sign signer (encodeUnsignedPayload (unsignedOf tx)) = Some sig
           \<and> verify crypto (pubkey signer) (encodeUnsignedPayload (unsignedOf tx)) sig"
  using assms
  by (auto simp: signSpend_def Let_def split: option.splits Seeds.splits if_splits)

lemma attachToSpend_Inl_iff:
  "(\<exists>e. attachToSpend nid pk sig crypto s = Inl e)
     \<longleftrightarrow> (noteId s = nid \<and> attachRejects crypto pk s)"
  by (auto simp: attachToSpend_def attachRejects_def split: Seeds.splits)

lemma attach_Inl_iff:
  "(\<exists>e. attachSignatureToSpend tx nid pk sig crypto = Inl e)
     \<longleftrightarrow> (\<exists>s \<in> set (spends tx). noteId s = nid \<and> attachRejects crypto pk s)"
proof -
  have "(\<exists>e. attachSignatureToSpend tx nid pk sig crypto = Inl e)
        \<longleftrightarrow> (\<exists>e. mapE (attachToSpend nid pk sig crypto) (spends tx) = Inl e)"
    by (auto simp: attachSignatureToSpend_def split: sum.splits)
  also have "\<dots> \<longleftrightarrow> (\<exists>s \<in> set (spends tx). \<exists>e. attachToSpend nid pk sig crypto s = Inl e)"
    by (rule mapE_Inl_iff)
  also have "\<dots> \<longleftrightarrow> (\<exists>s \<in> set (spends tx). noteId s = nid \<and> attachRejects crypto pk s)"
    by (simp only: attachToSpend_Inl_iff)
  finally show ?thesis .
qed

lemma attach_no_match:
  assumes "\<forall>s \<in> set (spends tx). noteId s \<noteq> nid"
  shows "attachSignatureToSpend tx nid pk sig crypto = Inr tx"
proof -
  have "mapE (attachToSpend nid pk sig crypto) (spends tx) = Inr (spends tx)"
    using assms by (intro mapE_id) (simp add: attachToSpend_def)
  then show ?thesis by (simp add: attachSignatureToSpend_def)
qed

lemma sign_no_match:
  assumes "\<forall>s \<in> set (spends tx). noteId s \<noteq> nid"
  shows "signSpend tx nid signer crypto = Inl UnknownNoteId"
proof -
  have "find (\<lambda>s. noteId s = nid) (spends tx) = None"
    using assms by (simp add: find_None_iff)
  then show ?thesis by (simp add: signSpend_def)
qed

lemma attach_ignores_verify:
  "attachSignatureToSpend tx nid pk sig (crypto\<lparr>verify := v\<rparr>)
     = attachSignatureToSpend tx nid pk sig crypto"
proof -
  have "pkhIsAllowed (crypto\<lparr>verify := v\<rparr>) = pkhIsAllowed crypto"
    by (simp add: pkhIsAllowed_def fun_eq_iff)
  then have "attachToSpend nid pk sig (crypto\<lparr>verify := v\<rparr>) = attachToSpend nid pk sig crypto"
    by (auto simp: attachToSpend_def fun_eq_iff split: Seeds.splits)
  then show ?thesis by (simp add: attachSignatureToSpend_def)
qed

lemma demo_no_h503: "\<forall>s \<in> set (spends demoTx). noteId s \<noteq> ''h50.3''"
  by (simp add: demoTx_def)

lemma demo_P1_authorised:
  "\<forall>s \<in> set (spends demoTx). noteId s = ''h50.1'' \<longrightarrow> \<not> attachRejects demoCrypto ''P1'' s"
  by (simp add: demoTx_def attachRejects_def pkhIsAllowed_def demoCrypto_def)

lemma demo_attach_garbage:
  "attachSignatureToSpend demoTx ''h50.1'' ''P1'' ''garbage'' demoCrypto = Inr demoTxBadSig"
  by code_simp

lemma demo_garbage_invalid:
  "\<not> verify demoCrypto ''P1'' (encodeUnsignedPayload (unsignedOf demoTx)) ''garbage''"
  by (simp add: demoCrypto_def)

section \<open>The spends of a built transaction\<close>




section \<open>Signature attachment leaves the transaction's other fields alone\<close>

text \<open>
  C7. Building twice from equal inputs gives equal \<open>unsignedHash\<close> (it is the hash of the
  unsigned payload of the built transaction); a transaction returned by
  \<open>attachSignatureToSpend\<close> or \<open>signSpend\<close> has the \<open>unsignedHash\<close>, \<open>version\<close>,
  \<open>network\<close>, \<open>outputs\<close> and \<open>fee\<close> of its input, and its spends are those of the input
  except that the spends matched by the note id carry the new signature in their
  signature map.
\<close>

theorem unsignedHash_stable:
  "(buildUnsignedTransaction v nw notes outs f ch crypto = Inr t1 \<longrightarrow>
      buildUnsignedTransaction v nw notes outs f ch crypto = Inr t2 \<longrightarrow>
      unsignedHash t1 = unsignedHash t2
      \<and> unsignedHash t1 = hash crypto (encodeUnsignedPayload (unsignedOf t1)))
   \<and> (attachSignatureToSpend tx nid pk sig crypto = Inr tx' \<longrightarrow>
        unsignedHash tx' = unsignedHash tx \<and> version tx' = version tx
        \<and> network tx' = network tx \<and> outputs tx' = outputs tx \<and> fee tx' = fee tx
        \<and> list_all2 (attachedAt nid pk sig) (spends tx) (spends tx'))
   \<and> (signSpend tx nid signer crypto = Inr tx'' \<longrightarrow>
        unsignedHash tx'' = unsignedHash tx \<and> version tx'' = version tx
        \<and> network tx'' = network tx \<and> outputs tx'' = outputs tx \<and> fee tx'' = fee tx
        \<and> (\<exists>sg. sign signer (encodeUnsignedPayload (unsignedOf tx)) = Some sg
              \<and> list_all2 (attachedAt nid (pubkey signer) sg) (spends tx) (spends tx'')))"
proof (intro conjI impI)
  assume a: "buildUnsignedTransaction v nw notes outs f ch crypto = Inr t1"
    and b: "buildUnsignedTransaction v nw notes outs f ch crypto = Inr t2"
  show "unsignedHash t1 = unsignedHash t2" using a b by simp
  show "unsignedHash t1 = hash crypto (encodeUnsignedPayload (unsignedOf t1))"
    using a
    by (auto simp: buildUnsignedTransaction_def Let_def TxBase.defs Transaction.defs
        unsignedOf_def encodeUnsignedPayload_def split: sum.splits if_splits)
next
  assume "signSpend tx nid signer crypto = Inr tx''"
  from signSpend_attach[OF this] obtain sg where
    s: "attachSignatureToSpend tx nid (pubkey signer) sg crypto = Inr tx''"
    and g: "sign signer (encodeUnsignedPayload (unsignedOf tx)) = Some sg" by blast
  note fr = attach_frame[OF s]
  show "unsignedHash tx'' = unsignedHash tx" "version tx'' = version tx"
    "network tx'' = network tx" "outputs tx'' = outputs tx" "fee tx'' = fee tx"
    using fr by simp_all
  show "\<exists>sg. sign signer (encodeUnsignedPayload (unsignedOf tx)) = Some sg
              \<and> list_all2 (attachedAt nid (pubkey signer) sg) (spends tx) (spends tx'')"
    using fr g by blast
qed (use attach_frame in blast)+

theorem unsignedHash_stable_witness:
  "buildUnsignedTransaction None None [demoNote1, demoNote2] [demoOutput] 10 None demoCrypto
     = Inr demoTx
   \<and> attachSignatureToSpend demoTx ''h50.1'' ''P1'' ''sig:P1'' demoCrypto = Inr demoTxSigned
   \<and> signSpend demoTx ''h50.1'' demoSigner demoCrypto = Inr demoTxSigned
   \<and> unsignedHash demoTx = hash demoCrypto (encodeUnsignedPayload (unsignedOf demoTx))
   \<and> unsignedHash demoTxSigned = unsignedHash demoTx
   \<and> list_all2 (attachedAt ''h50.1'' ''P1'' ''sig:P1'') (spends demoTx) (spends demoTxSigned)"
  using unsignedHash_stable[of None None "[demoNote1, demoNote2]" "[demoOutput]" 10 None
        demoCrypto demoTx demoTx demoTx "''h50.1''" "''P1''" "''sig:P1''" demoTxSigned
        demoSigner demoTxSigned]
    demo_build demo_attach demo_sign by simp

section \<open>When attaching a signature fails\<close>

text \<open>
  C10. \<open>attachSignatureToSpend\<close> raises an error exactly when a spend matched by the note
  id has seeds that are not \<open>%pkh\<close> or does not authorise the public key. When the note id
  matches no spend it returns its input unchanged, where \<open>signSpend\<close> raises
  \<open>UnknownNoteId\<close>. Its result does not depend on \<open>crypto.verify\<close>: whatever the
  signature string, it is stored for an authorised public key.
\<close>

theorem attachSignatureToSpend_errors:
  "((\<exists>e. attachSignatureToSpend tx nid pk sig crypto = Inl e)
       \<longleftrightarrow> (\<exists>s \<in> set (spends tx). noteId s = nid \<and> attachRejects crypto pk s))
   \<and> ((\<forall>s \<in> set (spends tx). noteId s \<noteq> nid) \<longrightarrow>
         attachSignatureToSpend tx nid pk sig crypto = Inr tx
         \<and> signSpend tx nid signer crypto = Inl UnknownNoteId)
   \<and> attachSignatureToSpend tx nid pk sig (crypto\<lparr>verify := v\<rparr>)
         = attachSignatureToSpend tx nid pk sig crypto
   \<and> ((\<forall>s \<in> set (spends tx). noteId s = nid \<longrightarrow> \<not> attachRejects crypto pk s) \<longrightarrow>
         (\<exists>tx'. attachSignatureToSpend tx nid pk sig crypto = Inr tx'
                \<and> list_all2 (attachedAt nid pk sig) (spends tx) (spends tx')))"
proof (intro conjI impI)
  show "(\<exists>e. attachSignatureToSpend tx nid pk sig crypto = Inl e)
       \<longleftrightarrow> (\<exists>s \<in> set (spends tx). noteId s = nid \<and> attachRejects crypto pk s)"
    by (rule attach_Inl_iff)
next
  assume "\<forall>s \<in> set (spends tx). noteId s \<noteq> nid"
  then show "attachSignatureToSpend tx nid pk sig crypto = Inr tx"
    by (rule attach_no_match)
next
  assume "\<forall>s \<in> set (spends tx). noteId s \<noteq> nid"
  then show "signSpend tx nid signer crypto = Inl UnknownNoteId"
    by (rule sign_no_match)
next
  show "attachSignatureToSpend tx nid pk sig (crypto\<lparr>verify := v\<rparr>)
         = attachSignatureToSpend tx nid pk sig crypto"
    by (rule attach_ignores_verify)
next
  assume ok: "\<forall>s \<in> set (spends tx). noteId s = nid \<longrightarrow> \<not> attachRejects crypto pk s"
  then have "\<not> (\<exists>e. attachSignatureToSpend tx nid pk sig crypto = Inl e)"
    unfolding attach_Inl_iff by blast
  then obtain tx' where r: "attachSignatureToSpend tx nid pk sig crypto = Inr tx'"
    by (cases "attachSignatureToSpend tx nid pk sig crypto") auto
  with attach_frame[OF r]
  show "\<exists>tx'. attachSignatureToSpend tx nid pk sig crypto = Inr tx'
                \<and> list_all2 (attachedAt nid pk sig) (spends tx) (spends tx')" by blast
qed

theorem attachSignatureToSpend_errors_witness:
  "attachSignatureToSpend demoTx ''h50.3'' ''P1'' ''garbage'' demoCrypto = Inr demoTx
   \<and> signSpend demoTx ''h50.3'' demoSigner demoCrypto = Inl UnknownNoteId
   \<and> \<not> verify demoCrypto ''P1'' (encodeUnsignedPayload (unsignedOf demoTx)) ''garbage''
   \<and> attachSignatureToSpend demoTx ''h50.1'' ''P1'' ''garbage'' demoCrypto = Inr demoTxBadSig
   \<and> list_all2 (attachedAt ''h50.1'' ''P1'' ''garbage'') (spends demoTx) (spends demoTxBadSig)"
proof -
  note t1 = attachSignatureToSpend_errors[of demoTx "''h50.3''" "''P1''" "''garbage''"
      demoCrypto demoSigner "verify demoCrypto"]
  note t2 = attachSignatureToSpend_errors[of demoTx "''h50.1''" "''P1''" "''garbage''"
      demoCrypto demoSigner "verify demoCrypto"]
  have x1: "attachSignatureToSpend demoTx ''h50.3'' ''P1'' ''garbage'' demoCrypto = Inr demoTx
         \<and> signSpend demoTx ''h50.3'' demoSigner demoCrypto = Inl UnknownNoteId"
    using t1[THEN conjunct2, THEN conjunct1] demo_no_h503 by (rule mp)
  have "\<exists>tx'. attachSignatureToSpend demoTx ''h50.1'' ''P1'' ''garbage'' demoCrypto = Inr tx'
          \<and> list_all2 (attachedAt ''h50.1'' ''P1'' ''garbage'') (spends demoTx) (spends tx')"
    using t2[THEN conjunct2, THEN conjunct2, THEN conjunct2] demo_P1_authorised by (rule mp)
  then have x2: "list_all2 (attachedAt ''h50.1'' ''P1'' ''garbage'') (spends demoTx)
                   (spends demoTxBadSig)"
    unfolding demo_attach_garbage by simp
  show ?thesis
    using demo_attach_garbage demo_garbage_invalid x1 x2
    by (intro conjI) simp_all
qed

section \<open>Balance of a built transaction\<close>

lemma validateNotes_iff:
  "validateNotes ns crypto = Inr () \<longleftrightarrow> list_all (noteIntegrity crypto) ns"
  by (induction ns)
     (auto simp: noteIntegrity_def assertNoteNameMatchesLock_def Let_def split: sum.splits)

lemma seedsFromLock_valid: "(\<exists>s. seedsFromLock l = Inr s) \<longleftrightarrow> lockValid l"
  by (induction l) (auto simp: assertValidPkhLock_def split: sum.splits)

lemma mapE_Inr_iff: "(\<exists>ys. mapE f xs = Inr ys) \<longleftrightarrow> (\<forall>x \<in> set xs. \<exists>y. f x = Inr y)"
  by (induction xs) (auto split: sum.splits)

lemma spendOfNote_ok_iff:
  "(\<exists>y. spendOfNote n = Inr y) \<longleftrightarrow> (\<exists>s. seedsFromLock (lock n) = Inr s)"
  by (cases "seedsFromLock (lock n)") (auto simp: spendOfNote_def)

lemma buildSpends_ok_iff:
  "(\<exists>sp. buildSpends notes = Inr sp) \<longleftrightarrow> list_all (\<lambda>n. lockValid (lock n)) notes"
proof -
  have "(\<exists>sp. buildSpends notes = Inr sp) \<longleftrightarrow> (\<forall>n \<in> set notes. \<exists>y. spendOfNote n = Inr y)"
    by (simp add: buildSpends_def mapE_Inr_iff)
  also have "\<dots> \<longleftrightarrow> (\<forall>n \<in> set notes. \<exists>s. seedsFromLock (lock n) = Inr s)"
    by (simp add: spendOfNote_ok_iff)
  finally show ?thesis by (simp add: seedsFromLock_valid list_all_iff)
qed

lemma build_unfold:
  assumes "validateNotes notes crypto = Inr ()" and "withChange outs ch \<noteq> []"
    and "list_all (\<lambda>o'. 0 < amount o') (withChange outs ch)" and "0 \<le> f"
  shows "buildUnsignedTransaction v nw notes outs f ch crypto =
     (if sumInputs notes < sumOutputs (withChange outs ch) + f
      then Inl (InsufficientFunds (sumOutputs (withChange outs ch) + f) (sumInputs notes))
      else case buildSpends notes of
           Inl e \<Rightarrow> Inl e
         | Inr sp \<Rightarrow>
             Inr \<lparr>version = (case v of None \<Rightarrow> 1 | Some x \<Rightarrow> x), network = nw, spends = sp,
                  outputs = withChange outs ch, fee = f,
                  unsignedHash = hash crypto (encodeUnsignedPayload
                     \<lparr>version = (case v of None \<Rightarrow> 1 | Some x \<Rightarrow> x), network = nw, spends = sp,
                      outputs = withChange outs ch, fee = f\<rparr>)\<rparr>)"
proof -
  have "\<not> (\<exists>o' \<in> set (withChange outs ch). amount o' \<le> 0)"
    using assms(3) by (auto simp: list_all_iff)
  then show ?thesis
    using assms(1,2,4)
    by (simp add: buildUnsignedTransaction_def Let_def withChange_def[symmetric]
        TxBase.defs Transaction.defs split: sum.splits)
qed

text \<open>
  C2, as the code has it. For notes that pass the integrity validation and whose locks
  \<open>seedsFromLock\<close> accepts, a non-empty output list (change appended) of positive amounts
  and a fee that is not negative: when the inputs cover outputs plus fee the build succeeds,
  with the requested outputs and fee, and outputs plus fee do not exceed the inputs;
  when they do not, whatever the locks, it fails with \<open>InsufficientFunds\<close>, reporting
  the needed and the available amount.
\<close>

theorem buildUnsignedTransaction_balance:
  assumes "list_all (noteIntegrity crypto) notes"
    and "withChange outs ch \<noteq> []"
    and "list_all (\<lambda>o'. 0 < amount o') (withChange outs ch)"
    and "0 \<le> f"
  shows "(sumOutputs (withChange outs ch) + f \<le> sumInputs notes
            \<and> list_all (\<lambda>n. lockValid (lock n)) notes \<longrightarrow>
          (\<exists>tx. buildUnsignedTransaction v nw notes outs f ch crypto = Inr tx
              \<and> outputs tx = withChange outs ch \<and> fee tx = f
              \<and> sumOutputs (outputs tx) + fee tx \<le> sumInputs notes))
       \<and> (sumInputs notes < sumOutputs (withChange outs ch) + f \<longrightarrow>
          buildUnsignedTransaction v nw notes outs f ch crypto
            = Inl (InsufficientFunds (sumOutputs (withChange outs ch) + f) (sumInputs notes)))"
proof -
  have vn: "validateNotes notes crypto = Inr ()" using assms(1) by (simp add: validateNotes_iff)
  note u = build_unfold[OF vn assms(2,3,4), of v nw]
  show ?thesis
  proof (intro conjI impI)
    assume a: "sumOutputs (withChange outs ch) + f \<le> sumInputs notes
            \<and> list_all (\<lambda>n. lockValid (lock n)) notes"
    then obtain sp where sp: "buildSpends notes = Inr sp"
      using buildSpends_ok_iff by blast
    show "\<exists>tx. buildUnsignedTransaction v nw notes outs f ch crypto = Inr tx
              \<and> outputs tx = withChange outs ch \<and> fee tx = f
              \<and> sumOutputs (outputs tx) + fee tx \<le> sumInputs notes"
      using a sp by (simp add: u)
  next
    assume "sumInputs notes < sumOutputs (withChange outs ch) + f"
    then show "buildUnsignedTransaction v nw notes outs f ch crypto
            = Inl (InsufficientFunds (sumOutputs (withChange outs ch) + f) (sumInputs notes))"
      by (simp add: u)
  qed
qed

theorem buildUnsignedTransaction_balance_witness:
  "buildUnsignedTransaction None None [demoNote1, demoNote2] [demoOutput] 10 None demoCrypto
     = Inr demoTx
   \<and> sumOutputs (outputs demoTx) + fee demoTx \<le> sumInputs [demoNote1, demoNote2]
   \<and> buildUnsignedTransaction None None [demoNote1, demoNote2] [demoOutput] 11 None demoCrypto
     = Inl (InsufficientFunds 111 110)"
proof -
  have i: "list_all (noteIntegrity demoCrypto) [demoNote1, demoNote2]" by code_simp
  have n: "withChange [demoOutput] None \<noteq> []" by (simp add: withChange_def)
  have p: "list_all (\<lambda>o'. 0 < amount o') (withChange [demoOutput] None)"
    by (simp add: withChange_def demoOutput_def)
  have v: "list_all (\<lambda>n. lockValid (lock n)) [demoNote1, demoNote2]"
    by (simp add: demoNote1_def demoNote2_def demoLock_def)
  have s: "sumInputs [demoNote1, demoNote2] = 110" "sumOutputs (withChange [demoOutput] None) = 100"
    by (simp_all add: sumInputs_def sumOutputs_def withChange_def demoNote1_def demoNote2_def
        demoOutput_def)
  have f10: "(0::int) \<le> 10" and f11: "(0::int) \<le> 11" by simp_all
  note t10 = buildUnsignedTransaction_balance[OF i n p f10, of None None, THEN conjunct1]
  note t11 = buildUnsignedTransaction_balance[OF i n p f11, of None None, THEN conjunct2]
  have "\<exists>tx. buildUnsignedTransaction None None [demoNote1, demoNote2] [demoOutput] 10 None
                demoCrypto = Inr tx
              \<and> outputs tx = withChange [demoOutput] None \<and> fee tx = 10
              \<and> sumOutputs (outputs tx) + fee tx \<le> sumInputs [demoNote1, demoNote2]"
    using t10 v s by simp
  then obtain tx where
    e: "buildUnsignedTransaction None None [demoNote1, demoNote2] [demoOutput] 10 None
          demoCrypto = Inr tx"
    and le: "sumOutputs (outputs tx) + fee tx \<le> sumInputs [demoNote1, demoNote2]"
    by blast
  have "tx = demoTx" using e demo_build by simp
  then have a: "sumOutputs (outputs demoTx) + fee demoTx \<le> sumInputs [demoNote1, demoNote2]"
    using le by simp
  have b: "buildUnsignedTransaction None None [demoNote1, demoNote2] [demoOutput] 11 None
             demoCrypto = Inl (InsufficientFunds 111 110)"
    using t11 s by simp
  show ?thesis using demo_build a b by simp
qed

text \<open>
  C2 as stated fails: \<open>dupNote\<close> passes the integrity validation (its name is the hash of
  its lock, its amount is positive) and covers the output, yet its lock lists the same pkh
  twice and the build fails in \<open>seedsFromLock\<close>.
\<close>

theorem buildUnsignedTransaction_rejects_invalid_lock:
  "noteIntegrity demoCrypto dupNote \<and> 0 < amount oneOutput
   \<and> sumOutputs [oneOutput] + 0 \<le> sumInputs [dupNote]
   \<and> buildUnsignedTransaction None None [dupNote] [oneOutput] 0 None demoCrypto = Inl PkhsNotUnique"
  by code_simp
section \<open>Change of the simple builder\<close>

lemma foldl_add: "foldl (\<lambda>acc x. acc + g x) a xs = a + sum_list (map g xs)" for a :: int
  by (induction xs arbitrary: a) auto

lemma sumOutputs_sum: "sumOutputs os = sum_list (map amount os)"
  by (simp add: sumOutputs_def foldl_add)

lemma sumOutputs_recipients: "sumOutputs (recipientOutputs rs) = recipientTotal rs"
  by (simp add: sumOutputs_sum recipientOutputs_def recipientTotal_def foldl_add comp_def)

lemma simple_unfold:
  "buildSimpleTransaction inputs recipients f ca crypto =
     (if changeAmount inputs recipients f < 0
      then Inl (InsufficientFunds (recipientTotal recipients + f) (sumInputs inputs))
      else buildUnsignedTransaction None None inputs (recipientOutputs recipients) f
             (changeOutput inputs recipients f ca) crypto)"
  unfolding buildSimpleTransaction_def changeAmount_def recipientTotal_def sumInputs_def
      recipientOutputs_def changeOutput_def Let_def
  by (rule refl)

lemma validateNotes_not_insufficient: "validateNotes ns crypto \<noteq> Inl (InsufficientFunds n a)"
  by (induction ns) (auto simp: assertNoteNameMatchesLock_def Let_def split: sum.splits)

lemma seedsFromLock_not_insufficient: "seedsFromLock l \<noteq> Inl (InsufficientFunds n a)"
  by (induction l) (auto simp: assertValidPkhLock_def split: sum.splits)

lemma mapE_Inl_elem: "mapE f xs = Inl e \<Longrightarrow> \<exists>x \<in> set xs. f x = Inl e"
  by (induction xs) (auto split: sum.splits)

lemma buildSpends_not_insufficient: "buildSpends ns \<noteq> Inl (InsufficientFunds n a)"
proof
  assume "buildSpends ns = Inl (InsufficientFunds n a)"
  then obtain x where "spendOfNote x = Inl (InsufficientFunds n a)"
    by (auto simp: buildSpends_def dest: mapE_Inl_elem)
  then show False
    using seedsFromLock_not_insufficient by (auto simp: spendOfNote_def split: sum.splits)
qed

lemma build_insufficient:
  assumes "buildUnsignedTransaction v nw ns outs f ch crypto = Inl (InsufficientFunds n a)"
  shows "sumInputs ns < sumOutputs (withChange outs ch) + f"
  using assms validateNotes_not_insufficient[of ns crypto n a]
    buildSpends_not_insufficient[of ns n a]
  by (auto simp: buildUnsignedTransaction_def Let_def withChange_def[symmetric]
      split: sum.splits if_splits)

lemma build_outputs:
  assumes "buildUnsignedTransaction v nw ns outs f ch crypto = Inr tx"
  shows "outputs tx = withChange outs ch \<and> fee tx = f"
  using assms
  by (auto simp: buildUnsignedTransaction_def Let_def withChange_def[symmetric]
      TxBase.defs Transaction.defs split: sum.splits if_splits)

lemma withChange_total:
  assumes "0 \<le> changeAmount inputs recipients f"
  shows "sumOutputs (withChange (recipientOutputs recipients) (changeOutput inputs recipients f ca)) + f
           \<le> sumInputs inputs"
  using assms
  by (auto simp: withChange_def changeOutput_def sumOutputs_sum sumOutputs_recipients[unfolded sumOutputs_sum]
      changeAmount_def split: option.splits)

text \<open>
  C6. \<open>buildSimpleTransaction\<close> fails with \<open>InsufficientFunds\<close> exactly when
  \<open>changeAmount = sum(inputs) - sum(recipients) - fee\<close> is negative, reporting the needed and
  the available amount. A transaction it returns has the recipients' outputs, followed by
  one change output of amount \<open>changeAmount\<close> when \<open>changeAmount > 0\<close> and a (non-empty)
  change address is given; otherwise its outputs are exactly the recipients', so a positive
  \<open>changeAmount\<close> appears in no output.
\<close>

theorem buildSimpleTransaction_change:
  "((\<exists>n a. buildSimpleTransaction inputs recipients f ca crypto = Inl (InsufficientFunds n a))
       \<longleftrightarrow> changeAmount inputs recipients f < 0)
   \<and> (changeAmount inputs recipients f < 0 \<longrightarrow>
         buildSimpleTransaction inputs recipients f ca crypto
           = Inl (InsufficientFunds (recipientTotal recipients + f) (sumInputs inputs)))
   \<and> (buildSimpleTransaction inputs recipients f ca crypto = Inr tx \<longrightarrow>
         fee tx = f \<and>
         outputs tx =
           (case ca of
              Some a \<Rightarrow> if 0 < changeAmount inputs recipients f \<and> a \<noteq> []
                        then recipientOutputs recipients
                               @ [\<lparr>address = a, amount = changeAmount inputs recipients f, assetId = None\<rparr>]
                        else recipientOutputs recipients
            | None \<Rightarrow> recipientOutputs recipients))"
proof (intro conjI impI)
  show "(\<exists>n a. buildSimpleTransaction inputs recipients f ca crypto = Inl (InsufficientFunds n a))
       \<longleftrightarrow> changeAmount inputs recipients f < 0"
  proof
    assume "\<exists>n a. buildSimpleTransaction inputs recipients f ca crypto = Inl (InsufficientFunds n a)"
    then obtain n a where
      e: "buildSimpleTransaction inputs recipients f ca crypto = Inl (InsufficientFunds n a)" by blast
    show "changeAmount inputs recipients f < 0"
    proof (rule ccontr)
      assume "\<not> changeAmount inputs recipients f < 0"
      then have nn: "0 \<le> changeAmount inputs recipients f" by simp
      with e have "buildUnsignedTransaction None None inputs (recipientOutputs recipients) f
             (changeOutput inputs recipients f ca) crypto = Inl (InsufficientFunds n a)"
        by (simp add: simple_unfold)
      from build_insufficient[OF this] withChange_total[OF nn, of ca] show False by simp
    qed
  next
    assume "changeAmount inputs recipients f < 0"
    then show "\<exists>n a. buildSimpleTransaction inputs recipients f ca crypto = Inl (InsufficientFunds n a)"
      by (simp add: simple_unfold)
  qed
next
  assume "changeAmount inputs recipients f < 0"
  then show "buildSimpleTransaction inputs recipients f ca crypto
           = Inl (InsufficientFunds (recipientTotal recipients + f) (sumInputs inputs))"
    by (simp add: simple_unfold)
next
  assume r: "buildSimpleTransaction inputs recipients f ca crypto = Inr tx"
  then have b: "buildUnsignedTransaction None None inputs (recipientOutputs recipients) f
             (changeOutput inputs recipients f ca) crypto = Inr tx"
    by (simp add: simple_unfold split: if_splits)
  from build_outputs[OF b] show "fee tx = f" by simp
  from build_outputs[OF b] show "outputs tx =
           (case ca of
              Some a \<Rightarrow> if 0 < changeAmount inputs recipients f \<and> a \<noteq> []
                        then recipientOutputs recipients
                               @ [\<lparr>address = a, amount = changeAmount inputs recipients f, assetId = None\<rparr>]
                        else recipientOutputs recipients
            | None \<Rightarrow> recipientOutputs recipients)"
    by (simp add: withChange_def changeOutput_def split: option.splits)
qed
lemma demo_simple:
  "buildSimpleTransaction [demoNote1, demoNote2] [(''A'', 60)] 40 (Some ''C'') demoCrypto
     = Inr demoSimpleTx"
  by code_simp

lemma demo_simple_no_change:
  "buildSimpleTransaction [demoNote1, demoNote2] [(''A'', 60)] 40 None demoCrypto
     = Inr demoSimpleTxNoChange"
  by code_simp

lemma demo_changeAmount:
  "changeAmount [demoNote1, demoNote2] [(''A'', 60)] 40 = 10"
  "changeAmount [demoNote1, demoNote2] [(''A'', 60)] 51 = -1"
  "recipientTotal [(''A'', 60)] = 60" "sumInputs [demoNote1, demoNote2] = 110"
  by (simp_all add: changeAmount_def recipientTotal_def sumInputs_def demoNote1_def
      demoNote2_def)

theorem buildSimpleTransaction_change_witness:
  "buildSimpleTransaction [demoNote1, demoNote2] [(''A'', 60)] 40 (Some ''C'') demoCrypto
     = Inr demoSimpleTx
   \<and> outputs demoSimpleTx = recipientOutputs [(''A'', 60)]
         @ [\<lparr>address = ''C'', amount = 10, assetId = None\<rparr>]
   \<and> buildSimpleTransaction [demoNote1, demoNote2] [(''A'', 60)] 40 None demoCrypto
     = Inr demoSimpleTxNoChange
   \<and> outputs demoSimpleTxNoChange = recipientOutputs [(''A'', 60)]
   \<and> buildSimpleTransaction [demoNote1, demoNote2] [(''A'', 60)] 51 (Some ''C'') demoCrypto
     = Inl (InsufficientFunds 111 110)"
proof -
  note t1 = buildSimpleTransaction_change[of "[demoNote1, demoNote2]" "[(''A'', 60)]" 40
      "Some ''C''" demoCrypto demoSimpleTx, THEN conjunct2, THEN conjunct2]
  note t2 = buildSimpleTransaction_change[of "[demoNote1, demoNote2]" "[(''A'', 60)]" 40
      None demoCrypto demoSimpleTxNoChange, THEN conjunct2, THEN conjunct2]
  note t3 = buildSimpleTransaction_change[of "[demoNote1, demoNote2]" "[(''A'', 60)]" 51
      "Some ''C''" demoCrypto demoSimpleTx, THEN conjunct2, THEN conjunct1]
  have a: "outputs demoSimpleTx = recipientOutputs [(''A'', 60)]
         @ [\<lparr>address = ''C'', amount = 10, assetId = None\<rparr>]"
    using t1 demo_simple by (simp add: demo_changeAmount)
  have b: "outputs demoSimpleTxNoChange = recipientOutputs [(''A'', 60)]"
    using t2 demo_simple_no_change by simp
  have c: "buildSimpleTransaction [demoNote1, demoNote2] [(''A'', 60)] 51 (Some ''C'') demoCrypto
     = Inl (InsufficientFunds 111 110)"
    using t3 by (simp add: demo_changeAmount)
  show ?thesis using demo_simple demo_simple_no_change a b c by simp
qed

section \<open>Signing bytes after a signature is attached\<close>

text \<open>
  C1, evaluated where it fails. \<open>canonicalizeSeeds\<close> writes the attached signatures
  (\<open>sigEntries\<close>) into the payload, so the bytes of \<open>encodeUnsignedPayload\<close> after
  \<open>attachSignatureToSpend\<close> differ from the bytes at construction (336 bytes against 300
  for \<open>demoTx\<close>, whose \<open>unsignedHash\<close> is the hash of the 300). With a provider that binds
  a signature to the signed bytes, the signature \<open>signSpend\<close> has just verified and
  attached no longer verifies on the transaction it returns.
\<close>

theorem encodeUnsignedPayload_changes_on_attach:
  "attachSignatureToSpend demoTx ''h50.1'' ''P1'' ''sig:P1'' demoCrypto = Inr demoTxSigned
   \<and> encodeUnsignedPayload demoTxSigned \<noteq> encodeUnsignedPayload demoTx
   \<and> length (encodeUnsignedPayload demoTx) = 300
   \<and> length (encodeUnsignedPayload demoTxSigned) = 336
   \<and> canonicalizeSeeds (seeds (spends demoTxSigned ! 0))
       = JObj [(''kind'', JStr ''%pkh''), (''pkhs'', JArr [JStr ''HP1'', JStr ''HP2'']),
               (''sigEntries'',
                JArr [JObj [(''pubkey'', JStr ''P1''), (''signature'', JStr ''sig:P1'')]]),
               (''threshold'', JNum 2)]
   \<and> signSpend demoTx ''h50.1'' bindingSigner bindingCrypto = Inr demoTxBound
   \<and> verify bindingCrypto ''P1'' (encodeUnsignedPayload demoTx) ''P1:h300''
   \<and> \<not> verifySignatureOnTx demoTxBound ''P1'' ''P1:h300'' bindingCrypto"
  by code_simp

section \<open>Counting collected signatures\<close>

text \<open>
  C5, evaluated where it fails. \<open>countCollectedPkh\<close> admits a public key when its hash or
  its literal value is in \<open>pkhs\<close>, but remembers it by its hash alone. In
  \<open>demoSeedsTwoEncodings\<close> (reached from \<open>demoTxSigned\<close> by one more
  \<open>attachSignatureToSpend\<close>) one member of the 2-of-2 lock carries signatures, the count
  is 2 and \<open>isPkhComplete\<close> holds.
\<close>

theorem countCollectedPkh_counts_member_twice:
  "attachSignatureToSpend demoTxSigned ''h50.1'' ''HP1'' ''sig:HP1'' demoCrypto
     = Inr demoTxTwoEncodings
   \<and> seeds (spends demoTxTwoEncodings ! 0) = Pkh demoSeedsTwoEncodings
   \<and> threshold demoSeedsTwoEncodings = 2
   \<and> signedMembers demoSeedsTwoEncodings demoCrypto = [''HP1'']
   \<and> countCollectedPkh demoSeedsTwoEncodings demoCrypto = 2
   \<and> isPkhComplete demoSeedsTwoEncodings demoCrypto"
  by code_simp

section \<open>Distribution across notes\<close>

lemma getSpendUsed_sum:
  "getSpendUsed s = spendFee s + sum_list (map snd (spendSeeds s))"
  by (simp add: getSpendUsed_def foldl_add)

lemma spare_used: "spare s = max 0 (assets s - getSpendUsed s)"
  by (simp add: spare_def getSpendUsed_sum)

lemma spare_nonneg: "0 \<le> spare s" by (simp add: spare_def)

lemma sum_spare_nonneg: "0 \<le> sum_list (map spare sp)"
  by (induction sp) (auto simp: spare_nonneg)

lemma spareBefore_nonneg: "0 \<le> spareBefore sp i"
  by (simp add: spareBefore_def sum_spare_nonneg)

lemma spareBefore_Suc: "spareBefore (s # sp) (Suc j) = spare s + spareBefore sp j"
  by (simp add: spareBefore_def)

lemma spareBefore_0: "spareBefore sp 0 = 0"
  by (simp add: spareBefore_def)

lemma feeLoop_length: "length (fst (feeLoop sp r)) = length sp"
  by (induction sp arbitrary: r) (auto simp: Let_def case_prod_beta)

lemma feeLoop_nonpos: "r \<le> 0 \<Longrightarrow> feeLoop sp r = (sp, r)"
  by (cases sp) auto

lemma feeLoop_nth:
  "i < length sp \<Longrightarrow>
   fst (feeLoop sp r) ! i =
     (sp ! i)\<lparr>spendFee := spendFee (sp ! i)
        + min (spare (sp ! i)) (max 0 (r - spareBefore sp i))\<rparr>"
proof (induction sp arbitrary: r i)
  case Nil
  then show ?case by simp
next
  case (Cons s rest)
  show ?case
  proof (cases "r \<le> 0")
    case True
    have "r - spareBefore (s # rest) i \<le> 0"
      using True spareBefore_nonneg[of "s # rest" i] by linarith
    then have "min (spare ((s # rest) ! i)) (max 0 (r - spareBefore (s # rest) i)) = 0"
      using spare_nonneg[of "(s # rest) ! i"] by simp
    then show ?thesis using True by (simp add: feeLoop_nonpos)
  next
    case rpos: False
    show ?thesis
    proof (cases "assets s - getSpendUsed s \<le> 0")
      case True
      then have sp0: "spare s = 0" by (simp add: spare_used)
      show ?thesis
      proof (cases i)
        case 0
        then show ?thesis using rpos True sp0 by (simp add: Let_def case_prod_beta)
      next
        case (Suc j)
        then have "j < length rest" using Cons.prems by simp
        from Cons.IH[OF this, of r] show ?thesis
          using rpos True sp0 Suc by (simp add: Let_def spareBefore_Suc case_prod_beta)
      qed
    next
      case cpos: False
      then have sp: "spare s = assets s - getSpendUsed s" by (simp add: spare_used)
      let ?share = "if r \<le> assets s - getSpendUsed s then r else assets s - getSpendUsed s"
      show ?thesis
      proof (cases i)
        case 0
        then show ?thesis using rpos cpos sp
          by (auto simp: Let_def spareBefore_0 min_def max_def case_prod_beta)
      next
        case (Suc j)
        then have j: "j < length rest" using Cons.prems by simp
        have eq: "min (spare (rest ! j)) (max 0 (r - ?share - spareBefore rest j))
                = min (spare (rest ! j)) (max 0 (r - (spare s + spareBefore rest j)))"
          using spareBefore_nonneg[of rest j] sp rpos cpos by (auto simp: min_def max_def)
        from Cons.IH[OF j, of "r - ?share"] show ?thesis
          using rpos cpos Suc eq
          by (simp add: Let_def spareBefore_Suc case_prod_beta)
      qed
    qed
  qed
qed

lemma feeLoop_snd:
  "snd (feeLoop sp r) = (if r \<le> 0 then r else max 0 (r - sum_list (map spare sp)))"
proof (induction sp arbitrary: r)
  case Nil
  then show ?case by simp
next
  case (Cons s rest)
  show ?case
  proof (cases "r \<le> 0")
    case True
    then show ?thesis by simp
  next
    case rpos: False
    show ?thesis
    proof (cases "assets s - getSpendUsed s \<le> 0")
      case True
      then have "spare s = 0" by (simp add: spare_used)
      then show ?thesis using rpos True Cons.IH[of r]
        by (simp add: Let_def case_prod_beta)
    next
      case cpos: False
      then have sp: "spare s = assets s - getSpendUsed s" by (simp add: spare_used)
      show ?thesis
        using rpos cpos sp Cons.IH[of "r - (if r \<le> assets s - getSpendUsed s then r else assets s - getSpendUsed s)"]
          sum_spare_nonneg[of rest]
        by (auto simp: Let_def max_def case_prod_beta)
    qed
  qed
qed

lemma distributeFee_fails_iff:
  "distributeFeeAcrossSpends sp f = Inl e \<longleftrightarrow>
     (e = FeeAllocationFailed \<and> 0 < f \<and> sum_list (map spare sp) < f)"
proof -
  have "snd (feeLoop sp f) > 0 \<longleftrightarrow> (0 < f \<and> sum_list (map spare sp) < f)"
    by (auto simp: feeLoop_snd)
  then show ?thesis
    by (auto simp: distributeFeeAcrossSpends_def split: prod.splits if_splits)
qed

lemma distributeFee_ok:
  assumes "distributeFeeAcrossSpends sp f = Inr sp'"
  shows "length sp' = length sp
       \<and> (\<forall>i < length sp.
            sp' ! i = (sp ! i)\<lparr>spendFee := spendFee (sp ! i)
                        + min (spare (sp ! i)) (max 0 (f - spareBefore sp i))\<rparr>)"
proof (cases "f \<le> 0")
  case True
  then have e: "sp' = sp" using assms by (simp add: distributeFeeAcrossSpends_def)
  have "min (spare (sp ! i)) (max 0 (f - spareBefore sp i)) = 0" for i
    using True spareBefore_nonneg[of sp i] spare_nonneg[of "sp ! i"] by (simp add: max_def)
  then show ?thesis using e by simp
next
  case False
  then have "sp' = fst (feeLoop sp f)"
    using assms by (auto simp: distributeFeeAcrossSpends_def split: prod.splits if_splits)
  then show ?thesis by (simp add: feeLoop_length feeLoop_nth)
qed
lemma units_Nil: "units [] = []" by (simp add: units_def)
lemma units_Cons: "units (p # q) = replicate (nat (snd p)) (fst p) @ units q"
  by (simp add: units_def)
lemma units_append: "units (a @ b) = units a @ units b"
  by (simp add: units_def)
lemma length_units: "positive q \<Longrightarrow> int (length (units q)) = sum_list (map snd q)"
  by (induction q) (auto simp: units_Nil units_Cons)
lemma units_empty_iff: "positive q \<Longrightarrow> units q = [] \<longleftrightarrow> q = []"
  by (cases q) (auto simp: units_Nil units_Cons)

lemma fillSpend_spec:
  assumes "positive q"
  shows "\<exists>new q'. fillSpend c q acc = (acc @ new, q')
           \<and> units new = take (nat c) (units q) \<and> units q' = drop (nat c) (units q)
           \<and> positive new \<and> positive q'"
  using assms
proof (induction c q acc rule: fillSpend.induct)
  case (1 capacity seeds)
  then show ?case by (simp add: units_Nil)
next
  case (2 capacity target queue seeds)
  obtain l a where t: "target = (l, a)" by (cases target)
  have apos: "0 < a" and qpos: "positive queue" using "2.prems" t by simp_all
  show ?case
  proof (cases "capacity > 0")
    case False
    then show ?thesis using "2.prems" by (simp add: units_Nil)
  next
    case cpos: True
    show ?thesis
    proof (cases "a \<le> capacity")
      case True
      have step: "fillSpend capacity (target # queue) seeds
                  = fillSpend (capacity - a) queue (seeds @ [(l, a)])"
        using cpos True t by (simp add: Let_def)
      have "\<exists>new q'. fillSpend (capacity - a) queue (seeds @ [(l, a)]) = ((seeds @ [(l, a)]) @ new, q')
           \<and> units new = take (nat (capacity - a)) (units queue)
           \<and> units q' = drop (nat (capacity - a)) (units queue)
           \<and> positive new \<and> positive q'"
        using "2.IH"(1)[OF cpos refl refl refl refl _ qpos] True t by simp
      then obtain new q' where
        r: "fillSpend (capacity - a) queue (seeds @ [(l, a)]) = ((seeds @ [(l, a)]) @ new, q')"
        and u: "units new = take (nat (capacity - a)) (units queue)"
        and d: "units q' = drop (nat (capacity - a)) (units queue)"
        and p: "positive new" "positive q'" by blast
      have n: "nat capacity - nat a = nat (capacity - a)" "nat a \<le> nat capacity"
        using True apos by simp_all
      have "units ((l, a) # new) = take (nat capacity) (units (target # queue))"
        using u n by (simp add: units_Cons t)
      moreover have "units q' = drop (nat capacity) (units (target # queue))"
        using d n by (simp add: units_Cons t)
      moreover have "fillSpend capacity (target # queue) seeds = (seeds @ ((l, a) # new), q')"
        using step r by simp
      moreover have "positive ((l, a) # new)" using p apos by simp
      ultimately show ?thesis using p(2) by blast
    next
      case False
      then have gt: "capacity < a" by simp
      have "fillSpend capacity (target # queue) seeds
              = fillSpend 0 ((l, a - capacity) # queue) (seeds @ [(l, capacity)])"
        using cpos gt t by (simp add: Let_def)
      then have r: "fillSpend capacity (target # queue) seeds
              = (seeds @ [(l, capacity)], (l, a - capacity) # queue)" by simp
      have n: "nat capacity \<le> nat a" "nat (a - capacity) = nat a - nat capacity"
        using gt cpos by simp_all
      have "units [(l, capacity)] = take (nat capacity) (units (target # queue))"
        using n by (simp add: units_Cons units_Nil t min_def)
      moreover have "units ((l, a - capacity) # queue) = drop (nat capacity) (units (target # queue))"
        using n by (simp add: units_Cons t)
      moreover have "positive [(l, capacity)]" "positive ((l, a - capacity) # queue)"
        using cpos gt qpos by simp_all
      ultimately show ?thesis using r by blast
    qed
  qed
qed

lemma amountLoop_spec:
  assumes "positive q"
  shows "\<exists>sp' q'. amountLoop sp q = (sp', q') \<and> length sp' = length sp
      \<and> (\<forall>i < length sp. \<exists>new.
            sp' ! i = (sp ! i)\<lparr>spendSeeds := spendSeeds (sp ! i) @ new\<rparr> \<and> positive new
            \<and> units new = take (nat (spare (sp ! i))) (drop (nat (spareBefore sp i)) (units q)))
      \<and> units q' = drop (nat (sum_list (map spare sp))) (units q) \<and> positive q'"
  using assms
proof (induction sp arbitrary: q)
  case Nil
  then show ?case by simp
next
  case (Cons s rest)
  show ?case
  proof (cases "q = []")
    case True
    have "\<exists>new. (s # rest) ! i = ((s # rest) ! i)\<lparr>spendSeeds := spendSeeds ((s # rest) ! i) @ new\<rparr>
            \<and> positive new
            \<and> units new = take (nat (spare ((s # rest) ! i)))
                            (drop (nat (spareBefore (s # rest) i)) (units []))" for i
      by (rule exI[of _ "[]"]) (simp add: units_Nil)
    then show ?thesis using True by (simp add: units_Nil)
  next
    case qne: False
    show ?thesis
    proof (cases "assets s - getSpendUsed s \<le> 0")
      case True
      then have sp0: "spare s = 0" by (simp add: spare_used)
      from Cons.IH[OF Cons.prems] obtain sp'' q' where
        r: "amountLoop rest q = (sp'', q')" and len: "length sp'' = length rest"
        and el: "\<forall>i < length rest. \<exists>new.
            sp'' ! i = (rest ! i)\<lparr>spendSeeds := spendSeeds (rest ! i) @ new\<rparr> \<and> positive new
            \<and> units new = take (nat (spare (rest ! i))) (drop (nat (spareBefore rest i)) (units q))"
        and dq: "units q' = drop (nat (sum_list (map spare rest))) (units q)"
        and pq: "positive q'" by blast
      have res: "amountLoop (s # rest) q = (s # sp'', q')"
        using qne True r by (simp add: Let_def)
      have "\<exists>new. (s # sp'') ! i = ((s # rest) ! i)\<lparr>spendSeeds := spendSeeds ((s # rest) ! i) @ new\<rparr>
            \<and> positive new
            \<and> units new = take (nat (spare ((s # rest) ! i)))
                            (drop (nat (spareBefore (s # rest) i)) (units q))"
        if "i < length (s # rest)" for i
      proof (cases i)
        case 0
        show ?thesis unfolding 0 by (rule exI[of _ "[]"]) (simp add: units_Nil sp0)
      next
        case (Suc j)
        then have "j < length rest" using that by simp
        with el show ?thesis unfolding Suc by (simp add: spareBefore_Suc sp0)
      qed
      then show ?thesis using res len dq pq sp0 by simp
    next
      case cpos: False
      then have sp: "spare s = assets s - getSpendUsed s" by (simp add: spare_used)
      from fillSpend_spec[OF Cons.prems, of "assets s - getSpendUsed s" "spendSeeds s"]
      obtain new0 q0 where
        f: "fillSpend (assets s - getSpendUsed s) q (spendSeeds s) = (spendSeeds s @ new0, q0)"
        and u0: "units new0 = take (nat (spare s)) (units q)"
        and d0: "units q0 = drop (nat (spare s)) (units q)"
        and p0: "positive new0" "positive q0" unfolding sp by blast
      from Cons.IH[OF p0(2)] obtain sp'' q' where
        r: "amountLoop rest q0 = (sp'', q')" and len: "length sp'' = length rest"
        and el: "\<forall>i < length rest. \<exists>new.
            sp'' ! i = (rest ! i)\<lparr>spendSeeds := spendSeeds (rest ! i) @ new\<rparr> \<and> positive new
            \<and> units new = take (nat (spare (rest ! i))) (drop (nat (spareBefore rest i)) (units q0))"
        and dq: "units q' = drop (nat (sum_list (map spare rest))) (units q0)"
        and pq: "positive q'" by blast
      have res: "amountLoop (s # rest) q = (s\<lparr>spendSeeds := spendSeeds s @ new0\<rparr> # sp'', q')"
        using qne cpos f r by (simp add: Let_def)
      have shift: "drop (nat b) (units q0) = drop (nat (spare s + b)) (units q)" if "0 \<le> b" for b
        using that spare_nonneg[of s] by (simp add: d0 nat_add_distrib add.commute)
      have "\<exists>new. (s\<lparr>spendSeeds := spendSeeds s @ new0\<rparr> # sp'') ! i
               = ((s # rest) ! i)\<lparr>spendSeeds := spendSeeds ((s # rest) ! i) @ new\<rparr>
            \<and> positive new
            \<and> units new = take (nat (spare ((s # rest) ! i)))
                            (drop (nat (spareBefore (s # rest) i)) (units q))"
        if "i < length (s # rest)" for i
      proof (cases i)
        case 0
        show ?thesis unfolding 0
          by (rule exI[of _ new0]) (simp add: u0 p0 spareBefore_0)
      next
        case (Suc j)
        then have "j < length rest" using that by simp
        with el show ?thesis unfolding Suc
          by (simp add: spareBefore_Suc shift[OF spareBefore_nonneg])
      qed
      moreover have "units q' = drop (nat (sum_list (map spare (s # rest)))) (units q)"
        using dq shift[OF sum_spare_nonneg[of rest]] by simp
      ultimately show ?thesis using res len pq by simp
    qed
  qed
qed

lemma positive_filter: "positive (filter (\<lambda>item. snd item > 0) amounts)"
  by (simp add: list_all_iff)

lemma positive_ex: "positive q \<Longrightarrow> list_ex (\<lambda>item. snd item > 0) q \<longleftrightarrow> units q \<noteq> []"
  by (cases q) (auto simp: units_Nil units_Cons)

lemma distributeAmounts_spec:
  "(distributeAmountsAcrossSpends sp amounts = Inl e \<longleftrightarrow>
      (e = OutputAllocationFailed \<and> sum_list (map spare sp) < sum_list (map snd (demand amounts))))
   \<and> (distributeAmountsAcrossSpends sp amounts = Inr sp' \<longrightarrow>
        length sp' = length sp
        \<and> (\<forall>i < length sp. \<exists>new.
            sp' ! i = (sp ! i)\<lparr>spendSeeds := spendSeeds (sp ! i) @ new\<rparr> \<and> positive new
            \<and> units new = take (nat (spare (sp ! i)))
                             (drop (nat (spareBefore sp i)) (units (demand amounts)))))"
proof -
  have pd: "positive (demand amounts)" by (simp add: demand_def positive_filter)
  from amountLoop_spec[OF pd, of sp] obtain r q' where
    r: "amountLoop sp (demand amounts) = (r, q')" and len: "length r = length sp"
    and el: "\<forall>i < length sp. \<exists>new.
            r ! i = (sp ! i)\<lparr>spendSeeds := spendSeeds (sp ! i) @ new\<rparr> \<and> positive new
            \<and> units new = take (nat (spare (sp ! i)))
                             (drop (nat (spareBefore sp i)) (units (demand amounts)))"
    and dq: "units q' = drop (nat (sum_list (map spare sp))) (units (demand amounts))"
    and pq: "positive q'" by blast
  have "list_ex (\<lambda>item. snd item > 0) q'
          \<longleftrightarrow> nat (sum_list (map spare sp)) < length (units (demand amounts))"
    using positive_ex[OF pq] dq by (simp add: not_le)
  also have "\<dots> \<longleftrightarrow> sum_list (map spare sp) < sum_list (map snd (demand amounts))"
    using length_units[OF pd] sum_spare_nonneg[of sp] by linarith
  finally have fail: "list_ex (\<lambda>item. snd item > 0) q'
          \<longleftrightarrow> sum_list (map spare sp) < sum_list (map snd (demand amounts))" .
  have d: "distributeAmountsAcrossSpends sp amounts =
      (if sum_list (map spare sp) < sum_list (map snd (demand amounts))
       then Inl OutputAllocationFailed else Inr r)"
    using r fail by (simp add: distributeAmountsAcrossSpends_def demand_def[symmetric] Let_def)
  show ?thesis using d len el by auto
qed
lemma takeUnits_nonpos: "c \<le> 0 \<Longrightarrow> takeUnits c q = []"
  by (cases q) auto

lemma dropUnits_nonpos: "c \<le> 0 \<Longrightarrow> dropUnits c q = q"
  by (cases q) auto

lemma dropUnits_positive: "positive q \<Longrightarrow> positive (dropUnits c q)"
  by (induction q arbitrary: c) auto

lemma dropUnits_add:
  "positive q \<Longrightarrow> 0 \<le> a \<Longrightarrow> 0 \<le> b \<Longrightarrow> dropUnits b (dropUnits a q) = dropUnits (a + b) q"
proof (induction q arbitrary: a)
  case Nil
  then show ?case by simp
next
  case (Cons d q)
  have dpos: "0 < snd d" and qpos: "positive q" using Cons.prems(1) by simp_all
  consider "a = 0" | "0 < a" "snd d \<le> a" | "0 < a" "a < snd d"
    using Cons.prems(2) by atomize_elim arith
  then show ?case
  proof cases
    case 1
    then show ?thesis by simp
  next
    case 2
    have "dropUnits b (dropUnits (a - snd d) q) = dropUnits (a - snd d + b) q"
      using 2 Cons.prems(3) by (intro Cons.IH[OF qpos]) simp_all
    moreover have "a - snd d + b = a + b - snd d" by simp
    ultimately show ?thesis using 2 Cons.prems(3) by simp
  next
    case 3
    then show ?thesis using Cons.prems(3) dpos by (auto simp: algebra_simps)
  qed
qed

lemma fillSpend_exact:
  "positive q \<Longrightarrow> fillSpend c q acc = (acc @ takeUnits c q, dropUnits c q)"
proof (induction c q acc rule: fillSpend.induct)
  case (1 capacity seeds)
  then show ?case by simp
next
  case (2 capacity target queue seeds)
  obtain l a where t: "target = (l, a)" by (cases target)
  have apos: "0 < a" and qpos: "positive queue" using "2.prems" t by simp_all
  show ?case
  proof (cases "capacity > 0")
    case False
    then show ?thesis by simp
  next
    case cpos: True
    show ?thesis
    proof (cases "a \<le> capacity")
      case True
      have step: "fillSpend capacity (target # queue) seeds
                  = fillSpend (capacity - a) queue (seeds @ [(l, a)])"
        using cpos True t by (simp add: Let_def)
      have "fillSpend (capacity - a) queue (seeds @ [(l, a)])
              = ((seeds @ [(l, a)]) @ takeUnits (capacity - a) queue, dropUnits (capacity - a) queue)"
        using "2.IH"(1)[OF cpos refl refl refl refl _ qpos] True t by simp
      then show ?thesis using step cpos True t by simp
    next
      case False
      then have gt: "capacity < a" by simp
      have "fillSpend capacity (target # queue) seeds
              = fillSpend 0 ((l, a - capacity) # queue) (seeds @ [(l, capacity)])"
        using cpos gt t by (simp add: Let_def)
      then show ?thesis using cpos gt t by simp
    qed
  qed
qed

lemma units_takeUnits: "positive q \<Longrightarrow> units (takeUnits c q) = take (nat c) (units q)"
  using fillSpend_spec[of q c "[]"] fillSpend_exact[of q c "[]"] by auto

lemma positive_takeUnits: "positive q \<Longrightarrow> positive (takeUnits c q)"
  using fillSpend_spec[of q c "[]"] fillSpend_exact[of q c "[]"] by auto

lemma units_dropUnits: "positive q \<Longrightarrow> units (dropUnits c q) = drop (nat c) (units q)"
  using fillSpend_spec[of q c "[]"] fillSpend_exact[of q c "[]"] by auto

lemma seeds_append_Nil: "s\<lparr>spendSeeds := spendSeeds s @ []\<rparr> = (s :: BuilderSpend)"
  by simp

lemma amountLoop_exact:
  assumes "positive q"
  shows "length (fst (amountLoop sp q)) = length sp
      \<and> (\<forall>i < length sp.
            fst (amountLoop sp q) ! i
              = (sp ! i)\<lparr>spendSeeds := spendSeeds (sp ! i)
                   @ takeUnits (spare (sp ! i)) (dropUnits (spareBefore sp i) q)\<rparr>)
      \<and> snd (amountLoop sp q) = dropUnits (sum_list (map spare sp)) q"
  using assms
proof (induction sp arbitrary: q)
  case Nil
  then show ?case by (simp add: dropUnits_nonpos)
next
  case (Cons s rest)
  show ?case
  proof (cases "q = []")
    case True
    then show ?thesis by simp
  next
    case qne: False
    show ?thesis
    proof (cases "assets s - getSpendUsed s \<le> 0")
      case True
      then have sp0: "spare s = 0" by (simp add: spare_used)
      note ih = Cons.IH[OF Cons.prems]
      have res: "amountLoop (s # rest) q
                   = (s # fst (amountLoop rest q), snd (amountLoop rest q))"
        using qne True by (simp add: Let_def case_prod_beta)
      have "(s # fst (amountLoop rest q)) ! i
               = ((s # rest) ! i)\<lparr>spendSeeds := spendSeeds ((s # rest) ! i)
                   @ takeUnits (spare ((s # rest) ! i)) (dropUnits (spareBefore (s # rest) i) q)\<rparr>"
        if "i < length (s # rest)" for i
      proof (cases i)
        case 0
        show ?thesis unfolding 0 by (simp add: sp0 takeUnits_nonpos)
      next
        case (Suc j)
        then have "j < length rest" using that by simp
        with ih show ?thesis unfolding Suc by (simp add: spareBefore_Suc sp0)
      qed
      then show ?thesis using res ih sp0 by simp
    next
      case cpos: False
      then have sp: "spare s = assets s - getSpendUsed s" by (simp add: spare_used)
      have f: "fillSpend (assets s - getSpendUsed s) q (spendSeeds s)
                 = (spendSeeds s @ takeUnits (spare s) q, dropUnits (spare s) q)"
        unfolding sp by (rule fillSpend_exact[OF Cons.prems])
      let ?q0 = "dropUnits (spare s) q"
      have p0: "positive ?q0" by (rule dropUnits_positive[OF Cons.prems])
      note ih = Cons.IH[OF p0]
      have res: "amountLoop (s # rest) q
           = (s\<lparr>spendSeeds := spendSeeds s @ takeUnits (spare s) q\<rparr> # fst (amountLoop rest ?q0),
              snd (amountLoop rest ?q0))"
        using qne cpos f by (simp add: Let_def case_prod_beta)
      have shift: "dropUnits b ?q0 = dropUnits (spare s + b) q" if "0 \<le> b" for b
        by (rule dropUnits_add[OF Cons.prems spare_nonneg that])
      have "(s\<lparr>spendSeeds := spendSeeds s @ takeUnits (spare s) q\<rparr> # fst (amountLoop rest ?q0)) ! i
               = ((s # rest) ! i)\<lparr>spendSeeds := spendSeeds ((s # rest) ! i)
                   @ takeUnits (spare ((s # rest) ! i)) (dropUnits (spareBefore (s # rest) i) q)\<rparr>"
        if "i < length (s # rest)" for i
      proof (cases i)
        case 0
        show ?thesis unfolding 0 by (simp add: spareBefore_0 dropUnits_nonpos)
      next
        case (Suc j)
        then have "j < length rest" using that by simp
        with ih show ?thesis unfolding Suc
          by (simp add: spareBefore_Suc shift[OF spareBefore_nonneg])
      qed
      moreover have "snd (amountLoop rest ?q0) = dropUnits (sum_list (map spare (s # rest))) q"
        using ih shift[OF sum_spare_nonneg[of rest]] by simp
      ultimately show ?thesis using res ih by simp
    qed
  qed
qed

lemma distributeAmounts_exact:
  assumes "distributeAmountsAcrossSpends sp amounts = Inr sp'"
  shows "length sp' = length sp
       \<and> (\<forall>i < length sp.
            sp' ! i = (sp ! i)\<lparr>spendSeeds := spendSeeds (sp ! i) @ allotted sp amounts i\<rparr>)"
proof -
  have pd: "positive (demand amounts)" by (simp add: demand_def positive_filter)
  have "sp' = fst (amountLoop sp (demand amounts))"
    using assms
    by (auto simp: distributeAmountsAcrossSpends_def demand_def Let_def split: prod.splits if_splits)
  then show ?thesis using amountLoop_exact[OF pd, of sp] by (simp add: allotted_def)
qed

lemma allotted_units:
  "positive (allotted sp amounts i)
   \<and> units (allotted sp amounts i)
       = take (nat (spare (sp ! i))) (drop (nat (spareBefore sp i)) (units (demand amounts)))"
proof -
  have pd: "positive (demand amounts)" by (simp add: demand_def positive_filter)
  have p: "positive (dropUnits (spareBefore sp i) (demand amounts))"
    by (rule dropUnits_positive[OF pd])
  show ?thesis
    unfolding allotted_def
    by (simp add: positive_takeUnits[OF p] units_takeUnits[OF p] units_dropUnits[OF pd])
qed

lemma list2_nth: "length xs = 2 \<Longrightarrow> xs = [xs ! 0, xs ! 1]"
  by (cases xs; cases "tl xs") auto

lemma example_general:
  assumes "spare s1 = 70" "spare s2 = 40"
  shows "distributeFeeAcrossSpends [s1, s2] 0 = Inr [s1, s2]
       \<and> distributeAmountsAcrossSpends [s1, s2] [(''A'', 60), (''B'', 50)]
           = Inr [s1\<lparr>spendSeeds := spendSeeds s1 @ [(''A'', 60), (''B'', 10)]\<rparr>,
                  s2\<lparr>spendSeeds := spendSeeds s2 @ [(''B'', 40)]\<rparr>]"
proof -
  let ?am = "[(''A'', 60), (''B'', 50)] :: PendingAmount list"
  have d: "demand ?am = ?am" by (simp add: demand_def)
  have "\<not> (sum_list (map spare [s1, s2]) < sum_list (map snd (demand ?am)))"
    using assms by (simp add: d)
  then have "\<not> isl (distributeAmountsAcrossSpends [s1, s2] ?am)"
    using distributeAmounts_spec[of "[s1, s2]" ?am OutputAllocationFailed]
    by (cases "distributeAmountsAcrossSpends [s1, s2] ?am")
       (auto simp: distributeAmounts_spec[THEN conjunct1])
  then obtain r where r: "distributeAmountsAcrossSpends [s1, s2] ?am = Inr r"
    by (cases "distributeAmountsAcrossSpends [s1, s2] ?am") auto
  note e = distributeAmounts_exact[OF r]
  have a0: "allotted [s1, s2] ?am 0 = [(''A'', 60), (''B'', 10)]"
    using assms by (simp add: allotted_def d spareBefore_def)
  have a1: "allotted [s1, s2] ?am 1 = [(''B'', 40)]"
    using assms by (simp add: allotted_def d spareBefore_def)
  have "r ! 0 = s1\<lparr>spendSeeds := spendSeeds s1 @ [(''A'', 60), (''B'', 10)]\<rparr>"
    using e a0 by simp
  moreover have "r ! 1 = s2\<lparr>spendSeeds := spendSeeds s2 @ [(''B'', 40)]\<rparr>"
    using e a1 by simp
  moreover have "length r = 2" using e by simp
  ultimately have "r = [s1\<lparr>spendSeeds := spendSeeds s1 @ [(''A'', 60), (''B'', 10)]\<rparr>,
                  s2\<lparr>spendSeeds := spendSeeds s2 @ [(''B'', 40)]\<rparr>]"
    using list2_nth[of r] by simp
  then show ?thesis using r by (simp add: distributeFeeAcrossSpends_def)
qed

text \<open>
  C9. Spare capacity is the note amount minus what is already on the spend (its fee and the
  amounts of its seeds), never negative. \<open>distributeFeeAcrossSpends\<close> fails exactly when
  the fee is positive and exceeds the total spare capacity; otherwise the fee of the spend at
  position \<open>i\<close> grows by what is left of the total fee after the spare capacity of the
  spends before it, capped by its own spare capacity. \<open>distributeAmountsAcrossSpends\<close>
  fails exactly when the positive demands exceed the total spare capacity; otherwise the
  spend at position \<open>i\<close> keeps its seeds and gets, appended, the piece of the demand queue
  that starts after the spare capacity of the spends before it and is as long as its own
  spare capacity: seeds of positive amounts, whole demands while they fit and the part that
  fits of a demand that does not (the rest goes to the next spend); unit by unit this is the
  corresponding stretch of the queue. For any two spends with spare capacities 70 and 40,
  demands \<open>(A, 60)\<close>, \<open>(B, 50)\<close> and fee 0, the fee distribution changes nothing, the
  first spend receives \<open>(A, 60)\<close> and \<open>(B, 10)\<close> and the second \<open>(B, 40)\<close>.
\<close>

theorem distribution_in_input_order:
  "(distributeFeeAcrossSpends sp f = Inl e \<longleftrightarrow>
      (e = FeeAllocationFailed \<and> 0 < f \<and> sum_list (map spare sp) < f))
   \<and> (distributeFeeAcrossSpends sp f = Inr sp1 \<longrightarrow>
        length sp1 = length sp
        \<and> (\<forall>i < length sp.
              sp1 ! i = (sp ! i)\<lparr>spendFee := spendFee (sp ! i)
                           + min (spare (sp ! i)) (max 0 (f - spareBefore sp i))\<rparr>))
   \<and> (distributeAmountsAcrossSpends sp amounts = Inl e' \<longleftrightarrow>
        (e' = OutputAllocationFailed
         \<and> sum_list (map spare sp) < sum_list (map snd (demand amounts))))
   \<and> (distributeAmountsAcrossSpends sp amounts = Inr sp2 \<longrightarrow>
        length sp2 = length sp
        \<and> (\<forall>i < length sp.
              sp2 ! i = (sp ! i)\<lparr>spendSeeds := spendSeeds (sp ! i) @ allotted sp amounts i\<rparr>
              \<and> positive (allotted sp amounts i)
              \<and> units (allotted sp amounts i)
                  = take (nat (spare (sp ! i)))
                         (drop (nat (spareBefore sp i)) (units (demand amounts)))))
   \<and> (spare s1 = 70 \<and> spare s2 = 40 \<longrightarrow>
        distributeFeeAcrossSpends [s1, s2] 0 = Inr [s1, s2]
        \<and> distributeAmountsAcrossSpends [s1, s2] [(''A'', 60), (''B'', 50)]
            = Inr [s1\<lparr>spendSeeds := spendSeeds s1 @ [(''A'', 60), (''B'', 10)]\<rparr>,
                   s2\<lparr>spendSeeds := spendSeeds s2 @ [(''B'', 40)]\<rparr>])"
proof (intro conjI)
  show "distributeFeeAcrossSpends sp f = Inl e \<longleftrightarrow>
      (e = FeeAllocationFailed \<and> 0 < f \<and> sum_list (map spare sp) < f)"
    by (rule distributeFee_fails_iff)
  show "distributeFeeAcrossSpends sp f = Inr sp1 \<longrightarrow>
        length sp1 = length sp
        \<and> (\<forall>i < length sp.
              sp1 ! i = (sp ! i)\<lparr>spendFee := spendFee (sp ! i)
                           + min (spare (sp ! i)) (max 0 (f - spareBefore sp i))\<rparr>)"
    using distributeFee_ok[of sp f sp1] by blast
  show "distributeAmountsAcrossSpends sp amounts = Inl e' \<longleftrightarrow>
        (e' = OutputAllocationFailed
         \<and> sum_list (map spare sp) < sum_list (map snd (demand amounts)))"
    by (rule distributeAmounts_spec[THEN conjunct1])
  show "distributeAmountsAcrossSpends sp amounts = Inr sp2 \<longrightarrow>
        length sp2 = length sp
        \<and> (\<forall>i < length sp.
              sp2 ! i = (sp ! i)\<lparr>spendSeeds := spendSeeds (sp ! i) @ allotted sp amounts i\<rparr>
              \<and> positive (allotted sp amounts i)
              \<and> units (allotted sp amounts i)
                  = take (nat (spare (sp ! i)))
                         (drop (nat (spareBefore sp i)) (units (demand amounts))))"
    using distributeAmounts_exact[of sp amounts sp2] allotted_units[of sp amounts] by blast
  show "spare s1 = 70 \<and> spare s2 = 40 \<longrightarrow>
        distributeFeeAcrossSpends [s1, s2] 0 = Inr [s1, s2]
        \<and> distributeAmountsAcrossSpends [s1, s2] [(''A'', 60), (''B'', 50)]
            = Inr [s1\<lparr>spendSeeds := spendSeeds s1 @ [(''A'', 60), (''B'', 10)]\<rparr>,
                   s2\<lparr>spendSeeds := spendSeeds s2 @ [(''B'', 40)]\<rparr>]"
    using example_general[of s1 s2] by blast
qed

lemma demo_distribute_fee:
  "distributeFeeAcrossSpends [usedSpend1, usedSpend2] 80
     = Inr [usedSpend1\<lparr>spendFee := 80\<rparr>, usedSpend2\<lparr>spendFee := 12\<rparr>]"
  by code_simp

lemma demo_spare: "spare usedSpend1 = 70 \<and> spare usedSpend2 = 40"
  by (simp add: spare_def usedSpend1_def usedSpend2_def)

theorem distribution_in_input_order_witness:
  "distributeFeeAcrossSpends [usedSpend1, usedSpend2] 80
     = Inr [usedSpend1\<lparr>spendFee := 80\<rparr>, usedSpend2\<lparr>spendFee := 12\<rparr>]
   \<and> [usedSpend1\<lparr>spendFee := 80\<rparr>, usedSpend2\<lparr>spendFee := 12\<rparr>] ! 1
       = usedSpend2\<lparr>spendFee := spendFee usedSpend2
            + min (spare usedSpend2) (max 0 (80 - spareBefore [usedSpend1, usedSpend2] 1))\<rparr>
   \<and> distributeFeeAcrossSpends [usedSpend1, usedSpend2] 111 = Inl FeeAllocationFailed
   \<and> distributeFeeAcrossSpends [usedSpend1, usedSpend2] 0 = Inr [usedSpend1, usedSpend2]
   \<and> distributeAmountsAcrossSpends [usedSpend1, usedSpend2] [(''A'', 60), (''B'', 50)]
       = Inr [usedSpend1\<lparr>spendSeeds := [(''X'', 20), (''A'', 60), (''B'', 10)]\<rparr>,
              usedSpend2\<lparr>spendSeeds := [(''Y'', 3), (''B'', 40)]\<rparr>]
   \<and> distributeAmountsAcrossSpends [usedSpend1, usedSpend2] [(''A'', 60), (''B'', 51)]
       = Inl OutputAllocationFailed"
proof -
  note t = distribution_in_input_order[of "[usedSpend1, usedSpend2]" 80
      FeeAllocationFailed
      "[usedSpend1\<lparr>spendFee := 80\<rparr>, usedSpend2\<lparr>spendFee := 12\<rparr>]"
      "[(''A'', 60), (''B'', 50)]" OutputAllocationFailed _ usedSpend1 usedSpend2]
  note u = distribution_in_input_order[of "[usedSpend1, usedSpend2]" 111
      FeeAllocationFailed _ "[(''A'', 60), (''B'', 51)]" OutputAllocationFailed]
  have s: "sum_list (map spare [usedSpend1, usedSpend2]) = 110"
    using demo_spare by simp
  have a: "[usedSpend1\<lparr>spendFee := 80\<rparr>, usedSpend2\<lparr>spendFee := 12\<rparr>] ! 1
       = usedSpend2\<lparr>spendFee := spendFee usedSpend2
            + min (spare usedSpend2) (max 0 (80 - spareBefore [usedSpend1, usedSpend2] 1))\<rparr>"
  proof -
    have "\<forall>i < length [usedSpend1, usedSpend2].
            [usedSpend1\<lparr>spendFee := 80\<rparr>, usedSpend2\<lparr>spendFee := 12\<rparr>] ! i
              = ([usedSpend1, usedSpend2] ! i)\<lparr>spendFee := spendFee ([usedSpend1, usedSpend2] ! i)
                  + min (spare ([usedSpend1, usedSpend2] ! i))
                        (max 0 (80 - spareBefore [usedSpend1, usedSpend2] i))\<rparr>"
      using t[THEN conjunct2, THEN conjunct1] demo_distribute_fee by blast
    from this[rule_format, of 1] show ?thesis by simp
  qed
  have b: "distributeFeeAcrossSpends [usedSpend1, usedSpend2] 111 = Inl FeeAllocationFailed"
    using u[THEN conjunct1] s by simp
  have c: "distributeAmountsAcrossSpends [usedSpend1, usedSpend2] [(''A'', 60), (''B'', 51)]
             = Inl OutputAllocationFailed"
    using u[THEN conjunct2, THEN conjunct2, THEN conjunct1] s by (simp add: demand_def)
  have d: "distributeFeeAcrossSpends [usedSpend1, usedSpend2] 0 = Inr [usedSpend1, usedSpend2]
        \<and> distributeAmountsAcrossSpends [usedSpend1, usedSpend2] [(''A'', 60), (''B'', 50)]
            = Inr [usedSpend1\<lparr>spendSeeds := spendSeeds usedSpend1 @ [(''A'', 60), (''B'', 10)]\<rparr>,
                   usedSpend2\<lparr>spendSeeds := spendSeeds usedSpend2 @ [(''B'', 40)]\<rparr>]"
    by (rule t[THEN conjunct2, THEN conjunct2, THEN conjunct2, THEN conjunct2, rule_format,
          OF demo_spare])
  have e: "spendSeeds usedSpend1 @ [(''A'', 60), (''B'', 10)] = [(''X'', 20), (''A'', 60), (''B'', 10)]"
    "spendSeeds usedSpend2 @ [(''B'', 40)] = [(''Y'', 3), (''B'', 40)]"
    by (simp_all add: usedSpend1_def usedSpend2_def)
  show ?thesis using demo_distribute_fee a b c d unfolding e by simp
qed

section \<open>The quoted form of a list of strings\<close>

lemma hexVal_hexDigit: "n < 16 \<Longrightarrow> hexVal (hexDigit n) = n"
proof -
  assume n: "n < 16"
  let ?xs = "''0123456789abcdef''"
  have d: "distinct ?xs" by simp
  have len: "length ?xs = 16" by simp
  have "takeWhile (\<lambda>x. x \<noteq> ?xs ! n) ?xs = take n ?xs"
  proof (rule takeWhile_eq_take_P_nth)
    fix i assume "i < n" "i < length ?xs"
    then show "?xs ! i \<noteq> ?xs ! n"
      using nth_eq_iff_index_eq[OF d, of i n] n len by simp
  next
    show "n < length ?xs \<Longrightarrow> \<not> ?xs ! n \<noteq> ?xs ! n" by simp
  qed
  then have "length (takeWhile (\<lambda>x. x \<noteq> ?xs ! n) ?xs) = n" using n len by simp
  then show ?thesis by (simp only: hexVal_def hexDigit_def)
qed

lemma unescape1_escapeChar: "unescape1 (escapeChar c @ u) = Some (c, u)"
proof -
  consider "c = CHR 0x22" | "c = CHR 0x5C" | "c = CHR 0x08" | "c = CHR 0x09" | "c = CHR 0x0A"
    | "c = CHR 0x0C" | "c = CHR 0x0D"
    | "c \<notin> {CHR 0x22, CHR 0x5C, CHR 0x08, CHR 0x09, CHR 0x0A, CHR 0x0C, CHR 0x0D}"
    by blast
  then show ?thesis
  proof cases
    case 8
    then have e: "escapeChar c = (if (of_char c :: nat) < 32
        then [CHR 0x5C, CHR ''u'', CHR ''0'', CHR ''0'',
              hexDigit (of_char c div 16), hexDigit (of_char c mod 16)]
        else [c])"
      by (simp add: escapeChar_def)
    show ?thesis
    proof (cases "(of_char c :: nat) < 32")
      case True
      then have "(of_char c :: nat) div 16 < 16" "(of_char c :: nat) mod 16 < 16" by simp_all
      then have "hexVal (hexDigit (of_char c div 16)) = of_char c div 16"
        "hexVal (hexDigit (of_char c mod 16)) = of_char c mod 16"
        by (simp_all add: hexVal_hexDigit)
      then show ?thesis using True e by (simp add: unescape1_def)
    next
      case False
      then show ?thesis using e 8 by (simp add: unescape1_def)
    qed
  qed (simp_all add: escapeChar_def unescape1_def)
qed

lemma escapeChar_prefix_free:
  assumes "escapeChar c @ u = escapeChar d @ v"
  shows "c = d \<and> u = v"
proof -
  have "unescape1 (escapeChar c @ u) = unescape1 (escapeChar d @ v)" using assms by simp
  then show ?thesis by (simp add: unescape1_escapeChar)
qed

lemma escapeChar_head: "escapeChar c = h # t \<Longrightarrow> h \<noteq> CHR 0x22"
  by (auto simp: escapeChar_def split: if_splits)

lemma escapeChar_nonempty: "escapeChar c \<noteq> []"
  by (simp add: escapeChar_def)

lemma escaped_body_inj:
  "concat (map escapeChar x) @ CHR 0x22 # r1 = concat (map escapeChar y) @ CHR 0x22 # r2
     \<Longrightarrow> x = y \<and> r1 = r2"
proof (induction x arbitrary: y)
  case Nil
  show ?case
  proof (cases y)
    case Nil
    with Nil.prems show ?thesis by simp
  next
    case (Cons d ds)
    obtain h t where "escapeChar d = h # t" using escapeChar_nonempty[of d] by (cases "escapeChar d") auto
    with Nil.prems Cons escapeChar_head[of d h t] show ?thesis by simp
  qed
next
  case (Cons c cs)
  show ?case
  proof (cases y)
    case Nil
    obtain h t where "escapeChar c = h # t" using escapeChar_nonempty[of c] by (cases "escapeChar c") auto
    with Cons.prems Nil escapeChar_head[of c h t] show ?thesis by simp
  next
    case (Cons d ds)
    with Cons.prems have
      "escapeChar c @ (concat (map escapeChar cs) @ CHR 0x22 # r1)
         = escapeChar d @ (concat (map escapeChar ds) @ CHR 0x22 # r2)" by simp
    from escapeChar_prefix_free[OF this] have cd: "c = d"
      and rest: "concat (map escapeChar cs) @ CHR 0x22 # r1 = concat (map escapeChar ds) @ CHR 0x22 # r2"
      by simp_all
    from Cons.IH[OF rest] cd Cons show ?thesis by simp
  qed
qed

lemma quoteJson_prefix_free: "quoteJson x @ r1 = quoteJson y @ r2 \<Longrightarrow> x = y \<and> r1 = r2"
  using escaped_body_inj[of x r1 y r2] by (simp add: quoteJson_def)

lemma joinWith_Cons: "joinWith sep (x # xs) = x @ (if xs = [] then [] else sep @ joinWith sep xs)"
  by (cases xs) auto

lemma quoteJson_nonempty: "quoteJson x \<noteq> []" by (simp add: quoteJson_def)

lemma join_quoted_inj:
  "joinWith '','' (map quoteJson xs) = joinWith '','' (map quoteJson ys) \<Longrightarrow> xs = ys"
proof (induction xs arbitrary: ys)
  case Nil
  then show ?case by (cases ys) (auto simp: joinWith_Cons quoteJson_nonempty)
next
  case (Cons x xs)
  show ?case
  proof (cases ys)
    case Nil
    with Cons.prems show ?thesis by (auto simp: joinWith_Cons quoteJson_nonempty)
  next
    case (Cons y ys')
    with Cons.prems have
      "quoteJson x @ (if xs = [] then [] else '','' @ joinWith '','' (map quoteJson xs))
         = quoteJson y @ (if ys' = [] then [] else '','' @ joinWith '','' (map quoteJson ys'))"
      by (simp add: joinWith_Cons)
    from quoteJson_prefix_free[OF this] have xy: "x = y"
      and t: "(if xs = [] then [] else '','' @ joinWith '','' (map quoteJson xs))
         = (if ys' = [] then [] else '','' @ joinWith '','' (map quoteJson ys'))" by simp_all
    have "xs = ys'"
    proof (cases "xs = []")
      case True
      with t show ?thesis by (auto split: if_splits)
    next
      case False
      with t have "ys' \<noteq> []" and "joinWith '','' (map quoteJson xs) = joinWith '','' (map quoteJson ys')"
        by (auto split: if_splits)
      then show ?thesis using Cons.IH by blast
    qed
    with xy Cons show ?thesis by simp
  qed
qed

lemma stringify_strings_inj:
  "canonicalStringify (JArr (map JStr xs)) = canonicalStringify (JArr (map JStr ys)) \<longleftrightarrow> xs = ys"
proof -
  have "map (\<lambda>x. if x = JUndef then ''null'' else canonicalStringify x) (map JStr zs)
          = map quoteJson zs" for zs
    by (induction zs) auto
  then have "canonicalStringify (JArr (map JStr zs))
               = ''['' @ joinWith '','' (map quoteJson zs) @ '']''" for zs
    by (simp del: map_map)
  then show ?thesis using join_quoted_inj[of xs ys] by auto
qed
section \<open>Merging two partially signed copies\<close>

lemma mergeSeeds_err: "mergeSeeds x y = Inl e \<Longrightarrow> isLockMismatch e"
  by (induction x y arbitrary: e rule: mergeSeeds.induct)
     (auto split: if_splits sum.splits)

lemma mergeSpend_err: "mergeSpend sa sb = Inl e \<Longrightarrow> isLockMismatch e"
  by (auto simp: mergeSpend_def split: if_splits Seeds.splits sum.splits dest: mergeSeeds_err)

lemma mergeSpend_mismatch:
  "lockMismatch sa sb \<Longrightarrow> \<exists>e. mergeSpend sa sb = Inl e"
  by (auto simp: lockMismatch_def mergeSpend_def stringify_strings_inj
      simp del: canonicalStringify.simps split: Seeds.splits)

lemma mergeSpend_ok: "mergeSpend sa sb = Inr sm \<Longrightarrow> mergedWith sa sb sm"
  by (auto simp: mergeSpend_def mergedWith_def stringify_strings_inj
      simp del: canonicalStringify.simps split: if_splits Seeds.splits sum.splits)

lemma bByNote_Some: "bByNote bs k = Some sb \<Longrightarrow> sb \<in> set bs \<and> noteId sb = k"
  by (auto simp: bByNote_def dest!: map_of_SomeD)

lemma bByNote_None: "bByNote bs k = None \<longleftrightarrow> (\<forall>s \<in> set bs. noteId s \<noteq> k)"
  by (auto simp: bByNote_def map_of_eq_None_iff image_iff)

lemma merge_unfold:
  "mergePartiallySignedTx a b =
     (if unsignedHash a \<noteq> unsignedHash b then Inl MergeHashDiffers
      else case mapE (mergeStep (spends b)) (spends a) of
             Inl e \<Rightarrow> Inl e
           | Inr sp \<Rightarrow> Inr (a\<lparr>spends := sp\<rparr>))"
  unfolding mergePartiallySignedTx_def mergeStep_def by (rule refl)

lemma mergeStep_err: "mergeStep bs sa = Inl e \<Longrightarrow> isLockMismatch e"
  by (auto simp: mergeStep_def split: option.splits dest: mergeSpend_err)

lemma mergeStep_ok: "mergeStep bs sa = Inr sm \<Longrightarrow> mergedAt bs sa sm"
  by (auto simp: mergeStep_def mergedAt_def split: option.splits dest: mergeSpend_ok)

lemma merge_err:
  assumes "mergePartiallySignedTx a b = Inl e" and "e \<noteq> MergeHashDiffers"
  shows "isLockMismatch e"
proof -
  from assms have "mapE (mergeStep (spends b)) (spends a) = Inl e"
    by (auto simp: merge_unfold split: if_splits sum.splits)
  then obtain sa where "mergeStep (spends b) sa = Inl e" by (auto dest: mapE_Inl_elem)
  then show ?thesis by (rule mergeStep_err)
qed

lemma merge_hash_iff:
  "mergePartiallySignedTx a b = Inl MergeHashDiffers \<longleftrightarrow> unsignedHash a \<noteq> unsignedHash b"
proof
  assume m: "mergePartiallySignedTx a b = Inl MergeHashDiffers"
  show "unsignedHash a \<noteq> unsignedHash b"
  proof
    assume "unsignedHash a = unsignedHash b"
    with m have "mapE (mergeStep (spends b)) (spends a) = Inl MergeHashDiffers"
      by (auto simp: merge_unfold split: sum.splits)
    then obtain sa where "mergeStep (spends b) sa = Inl MergeHashDiffers"
      by (auto dest: mapE_Inl_elem)
    from mergeStep_err[OF this] show False by simp
  qed
qed (simp add: merge_unfold)

lemma merge_mismatch:
  assumes "unsignedHash a = unsignedHash b" and "sa \<in> set (spends a)"
    and "bByNote (spends b) (noteId sa) = Some sb" and "lockMismatch sa sb"
  shows "\<exists>e. mergePartiallySignedTx a b = Inl e \<and> isLockMismatch e"
proof -
  from mergeSpend_mismatch[OF assms(4)] assms(3)
  have "\<exists>e. mergeStep (spends b) sa = Inl e" by (simp add: mergeStep_def)
  with assms(2) have "\<exists>e. mapE (mergeStep (spends b)) (spends a) = Inl e"
    unfolding mapE_Inl_iff by blast
  then obtain e where e: "mapE (mergeStep (spends b)) (spends a) = Inl e" by blast
  then have m: "mergePartiallySignedTx a b = Inl e" using assms(1) by (simp add: merge_unfold)
  from e obtain x where "mergeStep (spends b) x = Inl e" by (auto dest: mapE_Inl_elem)
  then have "isLockMismatch e" by (rule mergeStep_err)
  with m show ?thesis by blast
qed

lemma merge_ok:
  assumes "mergePartiallySignedTx a b = Inr m"
  shows "unsignedHash m = unsignedHash a \<and> version m = version a \<and> network m = network a
       \<and> outputs m = outputs a \<and> fee m = fee a
       \<and> list_all2 (mergedAt (spends b)) (spends a) (spends m)"
proof -
  from assms obtain sp where s: "mapE (mergeStep (spends b)) (spends a) = Inr sp"
    and m: "m = a\<lparr>spends := sp\<rparr>"
    by (auto simp: merge_unfold split: if_splits sum.splits)
  have "list_all2 (mergedAt (spends b)) (spends a) sp"
    using mapE_Inr_list_all2[OF s] by (rule list_all2_mono) (auto dest: mergeStep_ok)
  with m show ?thesis by simp
qed

lemma merged_lookup:
  assumes "mergedAt bs sa sm" and "bByNote bs (noteId sa) = Some sb"
    and "seeds sa = Pkh A" and "seeds sb = Pkh B"
  shows "\<exists>M. seeds sm = Pkh M \<and> threshold M = threshold A \<and> pkhs M = pkhs A
           \<and> fmlookup (signatures M) pk
               = (case fmlookup (signatures B) pk of
                    Some v \<Rightarrow> Some v | None \<Rightarrow> fmlookup (signatures A) pk)"
  using assms by (auto simp: mergedAt_def mergedWith_def split: option.splits)

text \<open>
  C4. \<open>mergePartiallySignedTx a b\<close> fails with the hash mismatch exactly when the two
  \<open>unsignedHash\<close> fields differ; every other error it raises is a lock mismatch, and it
  raises one whenever a spend of \<open>a\<close> and the spend of \<open>b\<close> with the same note id differ in
  seeds kind or, for \<open>%pkh\<close>, in threshold or sorted pkhs. On success the fields other than
  \<open>spends\<close> are those of \<open>a\<close>; a spend of \<open>a\<close> whose note id is not in \<open>b\<close> is unchanged;
  a \<open>%pkh\<close> spend present in both keeps threshold and pkhs of \<open>a\<close> and its signature map
  holds, for every public key, the entry of \<open>b\<close> when \<open>b\<close> has one and the entry of \<open>a\<close>
  otherwise. (\<open>bByNote\<close> finds a spend of \<open>b\<close> with the given note id iff there is one.)
\<close>

theorem mergePartiallySignedTx_spec:
  "(mergePartiallySignedTx a b = Inl MergeHashDiffers \<longleftrightarrow> unsignedHash a \<noteq> unsignedHash b)
   \<and> (mergePartiallySignedTx a b = Inl e \<longrightarrow> e \<noteq> MergeHashDiffers \<longrightarrow> isLockMismatch e)
   \<and> (unsignedHash a = unsignedHash b \<longrightarrow> sa \<in> set (spends a) \<longrightarrow>
        bByNote (spends b) (noteId sa) = Some sb \<longrightarrow> lockMismatch sa sb \<longrightarrow>
        (\<exists>e'. mergePartiallySignedTx a b = Inl e' \<and> isLockMismatch e'))
   \<and> (mergePartiallySignedTx a b = Inr m \<longrightarrow>
        unsignedHash m = unsignedHash a \<and> version m = version a \<and> network m = network a
        \<and> outputs m = outputs a \<and> fee m = fee a
        \<and> list_all2 (mergedAt (spends b)) (spends a) (spends m)
        \<and> (\<forall>i < length (spends a). \<forall>sb' A B pk.
              bByNote (spends b) (noteId (spends a ! i)) = Some sb' \<longrightarrow>
              seeds (spends a ! i) = Pkh A \<longrightarrow> seeds sb' = Pkh B \<longrightarrow>
              (\<exists>M. seeds (spends m ! i) = Pkh M \<and> threshold M = threshold A \<and> pkhs M = pkhs A
                 \<and> fmlookup (signatures M) pk
                     = (case fmlookup (signatures B) pk of
                          Some v \<Rightarrow> Some v | None \<Rightarrow> fmlookup (signatures A) pk))))
   \<and> (bByNote (spends b) k = None \<longleftrightarrow> (\<forall>s \<in> set (spends b). noteId s \<noteq> k))
   \<and> (bByNote (spends b) k = Some s' \<longrightarrow> s' \<in> set (spends b) \<and> noteId s' = k)"
proof (intro conjI impI allI)
  show "mergePartiallySignedTx a b = Inl MergeHashDiffers \<longleftrightarrow> unsignedHash a \<noteq> unsignedHash b"
    by (rule merge_hash_iff)
next
  assume "mergePartiallySignedTx a b = Inl e" "e \<noteq> MergeHashDiffers"
  then show "isLockMismatch e" by (rule merge_err)
next
  assume "unsignedHash a = unsignedHash b" "sa \<in> set (spends a)"
    "bByNote (spends b) (noteId sa) = Some sb" "lockMismatch sa sb"
  then show "\<exists>e'. mergePartiallySignedTx a b = Inl e' \<and> isLockMismatch e'"
    by (rule merge_mismatch)
next
  assume m: "mergePartiallySignedTx a b = Inr m"
  note ok = merge_ok[OF m]
  show "unsignedHash m = unsignedHash a" "version m = version a" "network m = network a"
    "outputs m = outputs a" "fee m = fee a"
    "list_all2 (mergedAt (spends b)) (spends a) (spends m)"
    using ok by simp_all
  fix i sb' A B pk
  assume i: "i < length (spends a)"
    and sb: "bByNote (spends b) (noteId (spends a ! i)) = Some sb'"
    and A: "seeds (spends a ! i) = Pkh A" and B: "seeds sb' = Pkh B"
  have "mergedAt (spends b) (spends a ! i) (spends m ! i)"
    using ok i by (simp add: list_all2_conv_all_nth)
  from merged_lookup[OF this sb A B]
  show "\<exists>M. seeds (spends m ! i) = Pkh M \<and> threshold M = threshold A \<and> pkhs M = pkhs A
          \<and> fmlookup (signatures M) pk
              = (case fmlookup (signatures B) pk of
                   Some v \<Rightarrow> Some v | None \<Rightarrow> fmlookup (signatures A) pk)" .
next
  show "bByNote (spends b) k = None \<longleftrightarrow> (\<forall>s \<in> set (spends b). noteId s \<noteq> k)"
    by (rule bByNote_None)
next
  assume "bByNote (spends b) k = Some s'"
  then show "s' \<in> set (spends b)" "noteId s' = k" by (simp_all add: bByNote_Some)
qed
lemma demo_merge: "mergePartiallySignedTx demoTxSigned demoTxP2 = Inr demoTxMerged"
  by code_simp

lemma demo_merge_threshold:
  "mergePartiallySignedTx demoTxSigned demoTxThreshold1 = Inl MergeThresholdDiffers"
  by code_simp

lemma demo_threshold_mismatch:
  "unsignedHash demoTxSigned = unsignedHash demoTxThreshold1"
  "spends demoTxSigned ! 0 \<in> set (spends demoTxSigned)"
  "bByNote (spends demoTxThreshold1) (noteId (spends demoTxSigned ! 0))
     = Some (spends demoTxThreshold1 ! 0)"
  "lockMismatch (spends demoTxSigned ! 0) (spends demoTxThreshold1 ! 0)"
  by (simp_all add: demoTxSigned_def demoTxThreshold1_def bByNote_def lockMismatch_def)

lemma demo_hash_differs: "unsignedHash demoTxSigned \<noteq> unsignedHash demoSimpleTx"
  by (simp add: demoTxSigned_def demoSimpleTx_def)

theorem mergePartiallySignedTx_spec_witness:
  "mergePartiallySignedTx demoTxSigned demoTxP2 = Inr demoTxMerged
   \<and> list_all2 (mergedAt (spends demoTxP2)) (spends demoTxSigned) (spends demoTxMerged)
   \<and> mergePartiallySignedTx demoTxSigned demoSimpleTx = Inl MergeHashDiffers
   \<and> mergePartiallySignedTx demoTxSigned demoTxThreshold1 = Inl MergeThresholdDiffers
   \<and> isLockMismatch MergeThresholdDiffers"
proof -
  note t1 = mergePartiallySignedTx_spec[of demoTxSigned demoTxP2 e sa sb demoTxMerged k s'
      for e sa sb k s']
  note t2 = mergePartiallySignedTx_spec[of demoTxSigned demoSimpleTx e sa sb m k s'
      for e sa sb m k s']
  note t3 = mergePartiallySignedTx_spec[of demoTxSigned demoTxThreshold1 e
      "spends demoTxSigned ! 0" "spends demoTxThreshold1 ! 0" m k s' for e m k s']
  have a: "list_all2 (mergedAt (spends demoTxP2)) (spends demoTxSigned) (spends demoTxMerged)"
    using t1[THEN conjunct2, THEN conjunct2, THEN conjunct2, THEN conjunct1] demo_merge
    by blast
  have b: "mergePartiallySignedTx demoTxSigned demoSimpleTx = Inl MergeHashDiffers"
    using t2[THEN conjunct1] demo_hash_differs by blast
  have "\<exists>e'. mergePartiallySignedTx demoTxSigned demoTxThreshold1 = Inl e' \<and> isLockMismatch e'"
    using t3[THEN conjunct2, THEN conjunct2, THEN conjunct1] demo_threshold_mismatch by blast
  then have c: "isLockMismatch MergeThresholdDiffers"
    unfolding demo_merge_threshold by simp
  show ?thesis using demo_merge demo_merge_threshold a b c by simp
qed

section \<open>Export followed by import\<close>

lemma digit_lt10: "k < 10 \<Longrightarrow> digitValue (''0123456789'' ! k) = Some k"
proof -
  assume "k < 10"
  then consider "k = 0" | "k = 1" | "k = 2" | "k = 3" | "k = 4" | "k = 5" | "k = 6" | "k = 7"
    | "k = 8" | "k = 9" by atomize_elim arith
  then show ?thesis by cases (simp_all add: digitValue_def)
qed

lemma digit_char: "k < 10 \<Longrightarrow> ''0123456789'' ! k \<in> set ''0123456789''"
  by (rule nth_mem) simp

lemma parseDigits_step:
  "parseDigits base s = (if s = [] then None else foldl (digitStep base) (Some 0) s)"
  unfolding parseDigits_def digitStep_def by (rule refl)

lemma fold_digitsNat: "foldl (digitStep 10) (Some 0) (digitsNat n) = Some n"
proof (induction n rule: digitsNat.induct)
  case (1 n)
  show ?case
  proof (cases "n < 10")
    case True
    then show ?thesis
      by (subst digitsNat.simps) (simp add: digitStep_def digit_lt10)
  next
    case False
    have m: "n mod 10 < 10" by simp
    from "1.IH"[OF False] have "foldl (digitStep 10) (Some 0) (digitsNat (n div 10)) = Some (n div 10)" .
    then show ?thesis
      using False by (subst digitsNat.simps) (simp add: digitStep_def digit_lt10[OF m])
  qed
qed

lemma digitsNat_chars: "set (digitsNat n) \<subseteq> set ''0123456789''"
proof (induction n rule: digitsNat.induct)
  case (1 n)
  show ?case
  proof (cases "n < 10")
    case True
    then show ?thesis using digit_char[of n] by (subst digitsNat.simps) simp
  next
    case False
    have m: "n mod 10 < 10" by simp
    from "1.IH"[OF False] digit_char[OF m] False show ?thesis
      by (subst digitsNat.simps) simp
  qed
qed

lemma digitsNat_nonempty: "digitsNat n \<noteq> []"
  by (subst digitsNat.simps) simp

lemma parse_digitsNat: "parseDigits 10 (digitsNat n) = Some n"
  by (simp add: parseDigits_step digitsNat_nonempty fold_digitsNat)

lemma digit_not_white: "c \<in> set ''0123456789'' \<Longrightarrow> \<not> isWhite c"
  by (auto simp: isWhite_def)

lemma trimWhite_id:
  assumes "s \<noteq> []" "\<not> isWhite (hd s)" "\<not> isWhite (last s)"
  shows "trimWhite s = s"
proof -
  have a: "dropWhile isWhite s = s" using assms(1,2) by (cases s) auto
  have "rev s \<noteq> []" "\<not> isWhite (hd (rev s))" using assms(1,3) by (simp_all add: hd_rev)
  then have "dropWhile isWhite (rev s) = rev s" by (cases "rev s") auto
  with a show ?thesis by (simp add: trimWhite_def)
qed

lemma digitsNat_shape:
  "\<exists>d ds. digitsNat n = d # ds \<and> d \<in> set ''0123456789'' \<and> set ds \<subseteq> set ''0123456789''
           \<and> last (d # ds) \<in> set ''0123456789''"
proof -
  obtain d ds where e: "digitsNat n = d # ds" using digitsNat_nonempty[of n] by (cases "digitsNat n") auto
  have "set (d # ds) \<subseteq> set ''0123456789''" using digitsNat_chars[of n] e by simp
  moreover have "last (d # ds) \<in> set (d # ds)" by (rule last_in_set) simp
  ultimately show ?thesis using e by auto
qed

lemma BigInt_digits:
  assumes "t = d # ds" "d \<in> set ''0123456789''" "set ds \<subseteq> set ''0123456789''"
    "last (d # ds) \<in> set ''0123456789''"
  shows "BigInt t = map_option int (parseDigits 10 t)"
proof -
  have tr: "trimWhite t = t"
    using assms digit_not_white by (intro trimWhite_id) auto
  have hd: "d \<noteq> CHR ''-''" "d \<noteq> CHR ''+''" using assms(2) by auto
  have p: "take 2 t \<noteq> ''0x''" "take 2 t \<noteq> ''0X''" "take 2 t \<noteq> ''0o''" "take 2 t \<noteq> ''0O''"
    "take 2 t \<noteq> ''0b''" "take 2 t \<noteq> ''0B''"
    using assms(1,3) by (cases ds; auto)+
  show ?thesis using tr hd p assms(1) by (auto simp: BigInt_def Let_def)
qed

lemma BigInt_neg_digits:
  assumes "t = d # ds" "d \<in> set ''0123456789''" "set ds \<subseteq> set ''0123456789''"
    "last (d # ds) \<in> set ''0123456789''"
  shows "BigInt (CHR ''-'' # t) = map_option (\<lambda>n. - int n) (parseDigits 10 t)"
proof -
  have "\<not> isWhite (last (CHR ''-'' # t))" using assms digit_not_white by simp
  moreover have "\<not> isWhite (CHR ''-'')" by (simp add: isWhite_def)
  ultimately have tr: "trimWhite (CHR ''-'' # t) = CHR ''-'' # t"
    by (intro trimWhite_id) auto
  show ?thesis using tr assms(1) by (simp add: BigInt_def Let_def)
qed

lemma BigInt_toString: "BigInt (toString n) = Some n"
proof (cases "n < 0")
  case True
  obtain d ds where s: "digitsNat (nat (- n)) = d # ds" "d \<in> set ''0123456789''"
    "set ds \<subseteq> set ''0123456789''" "last (d # ds) \<in> set ''0123456789''"
    using digitsNat_shape by blast
  have "BigInt (CHR ''-'' # digitsNat (nat (- n)))
          = map_option (\<lambda>n. - int n) (parseDigits 10 (digitsNat (nat (- n))))"
    by (rule BigInt_neg_digits[OF s])
  then show ?thesis using True by (simp add: toString_def parse_digitsNat)
next
  case False
  obtain d ds where s: "digitsNat (nat n) = d # ds" "d \<in> set ''0123456789''"
    "set ds \<subseteq> set ''0123456789''" "last (d # ds) \<in> set ''0123456789''"
    using digitsNat_shape by blast
  have "BigInt (digitsNat (nat n)) = map_option int (parseDigits 10 (digitsNat (nat n)))"
    by (rule BigInt_digits[OF s])
  then show ?thesis using False by (simp add: toString_def parse_digitsNat)
qed

lemma reviveList_map:
  "(\<And>x. x \<in> set xs \<Longrightarrow> revive (g x) = Inr (f x)) \<Longrightarrow> reviveList (map g xs) = Inr (map f xs)"
  by (induction xs) auto

lemma reviveProps_map:
  assumes "\<And>kv. kv \<in> set kvs \<Longrightarrow> revive (g (snd kv)) = Inr (f (snd kv))"
  shows "reviveProps (map (\<lambda>(k, v). (k, g v)) kvs) = Inr (map (\<lambda>(k, v). (k, f v)) kvs)"
  using assms
proof (induction kvs)
  case Nil
  then show ?case by simp
next
  case (Cons kv kvs)
  have h: "revive (g (snd kv)) = Inr (f (snd kv))" by (rule Cons.prems) simp
  have t: "reviveProps (map (\<lambda>(k, v). (k, g v)) kvs) = Inr (map (\<lambda>(k, v). (k, f v)) kvs)"
    by (rule Cons.IH) (rule Cons.prems, simp)
  show ?case using h t by (cases kv) simp
qed

lemma serialized_undef: "serialized v = JUndef \<longleftrightarrow> v = JUndef"
  by (cases v) auto

lemma dropUndefined_undef: "dropUndefined v = JUndef \<longleftrightarrow> v = JUndef"
  by (cases v) auto

lemma revive_serialized:
  "noTaggedString v \<Longrightarrow> noUndefinedElement v \<Longrightarrow> revive (serialized v) = Inr (dropUndefined v)"
proof (induction v)
  case (JBig n)
  then show ?case by (simp add: BigInt_toString)
next
  case (JArr xs)
  have e: "map (\<lambda>x. if x = JUndef then JNull else serialized x) xs = map serialized xs"
    using JArr.prems(2) by (auto simp: list_all_iff)
  have "reviveList (map serialized xs) = Inr (map dropUndefined xs)"
    using JArr by (intro reviveList_map) (auto simp: list_all_iff)
  then show ?case by (simp add: e)
next
  case (JObj kvs)
  let ?kept = "filter (\<lambda>(k, v). v \<noteq> JUndef) kvs"
  have "reviveProps (map (\<lambda>(k, v). (k, serialized v)) ?kept)
          = Inr (map (\<lambda>(k, v). (k, dropUndefined v)) ?kept)"
  proof (rule reviveProps_map)
    fix kv assume "kv \<in> set ?kept"
    then have m: "kv \<in> set kvs" by simp
    have "snd kv \<in> Basic_BNFs.snds kv" by (cases kv) simp
    with JObj.IH[OF m] JObj.prems m
    show "revive (serialized (snd kv)) = Inr (dropUndefined (snd kv))"
      by (auto simp: list_all_iff)
  qed
  then show ?case by simp
qed simp_all

lemma cs_cong_list:
  "(\<And>x. x \<in> set xs \<Longrightarrow> canonicalStringify (serialized x) = canonicalStringify x) \<Longrightarrow>
   map (\<lambda>x. if x = JUndef then ''null'' else canonicalStringify x)
       (map (\<lambda>x. if x = JUndef then JNull else serialized x) xs)
   = map (\<lambda>x. if x = JUndef then ''null'' else canonicalStringify x) xs"
  by (induction xs) (auto simp: serialized_undef)

lemma cs_cong_props:
  assumes "\<And>kv. kv \<in> set kvs \<Longrightarrow> t (serialized (snd kv)) = t (snd kv)"
  shows "map (\<lambda>kv. F (fst kv) (t (snd kv)))
           (filter (\<lambda>kv. snd kv \<noteq> JUndef)
              (map (\<lambda>kv. (fst kv, serialized (snd kv))) (filter (\<lambda>kv. snd kv \<noteq> JUndef) kvs)))
       = map (\<lambda>kv. F (fst kv) (t (snd kv))) (filter (\<lambda>kv. snd kv \<noteq> JUndef) kvs)"
  using assms by (auto simp: filter_map comp_def serialized_undef)

lemma stringify_serialized: "canonicalStringify (serialized v) = canonicalStringify v"
proof (induction v)
  case (JArr xs)
  then show ?case by (simp add: cs_cong_list del: map_map)
next
  case (JObj kvs)
  have h: "\<And>kv. kv \<in> set kvs \<Longrightarrow> canonicalStringify (serialized (snd kv)) = canonicalStringify (snd kv)"
  proof -
    fix kv assume m: "kv \<in> set kvs"
    have "snd kv \<in> Basic_BNFs.snds kv" by (cases kv) simp
    with JObj.IH[OF m] show "canonicalStringify (serialized (snd kv)) = canonicalStringify (snd kv)" .
  qed
  have "canonicalStringify (serialized (JObj kvs))
          = ''{'' @ joinWith '',''
              (map (\<lambda>kv. quoteJson (fst kv) @ '':'' @ canonicalStringify (snd kv))
                 (filter (\<lambda>kv. snd kv \<noteq> JUndef)
                    (map (\<lambda>kv. (fst kv, serialized (snd kv)))
                       (filter (\<lambda>kv. snd kv \<noteq> JUndef) kvs)))) @ ''}''"
    by (simp only: serialized.simps canonicalStringify.simps case_prod_unfold)
  also have "\<dots> = ''{'' @ joinWith '',''
              (map (\<lambda>kv. quoteJson (fst kv) @ '':'' @ canonicalStringify (snd kv))
                 (filter (\<lambda>kv. snd kv \<noteq> JUndef) kvs)) @ ''}''"
    by (simp only: cs_cong_props[of kvs canonicalStringify "\<lambda>k s. quoteJson k @ '':'' @ s", OF h])
  also have "\<dots> = canonicalStringify (JObj kvs)"
    by (simp only: canonicalStringify.simps case_prod_unfold)
  finally show ?case .
qed simp_all

lemma mapVals_simps [simp]:
  "mapVals g [] = []" "mapVals g ((k, v) # kvs) = (k, g v) # mapVals g kvs"
  by (simp_all add: mapVals_def)

lemma mapVals_cong:
  "(\<And>kv. kv \<in> set kvs \<Longrightarrow> g (snd kv) = h (snd kv)) \<Longrightarrow> mapVals g kvs = mapVals h kvs"
  by (auto simp: mapVals_def)

lemma mapVals_comp: "mapVals g (mapVals h kvs) = mapVals (\<lambda>v. g (h v)) kvs"
  by (induction kvs) auto

lemma insort_mapVals:
  "insort_key fst (k, g v) (mapVals g xs) = mapVals g (insort_key fst (k, v) xs)"
  by (induction xs) auto

lemma sort_mapVals: "sort_key fst (mapVals g kvs) = mapVals g (sort_key fst kvs)"
  by (induction kvs) (auto simp: insort_mapVals)

lemma filter_mapVals:
  assumes "\<And>v. g v = JUndef \<longleftrightarrow> v = JUndef"
  shows "filter (\<lambda>(k, v). v \<noteq> JUndef) (mapVals g kvs)
           = mapVals g (filter (\<lambda>(k, v). v \<noteq> JUndef) kvs)"
proof (induction kvs)
  case Nil
  show ?case by simp
next
  case (Cons kv kvs)
  obtain k v where kv: "kv = (k, v)" by (cases kv)
  show ?case
  proof (cases "v = JUndef")
    case True
    then have "g v = JUndef" by (simp only: assms)
    then show ?thesis using True Cons.IH by (simp add: kv)
  next
    case False
    then have "g v \<noteq> JUndef" by (simp add: assms)
    then show ?thesis using False Cons.IH by (simp add: kv)
  qed
qed

lemma dropUndefined_JObj:
  "dropUndefined (JObj kvs) = JObj (mapVals dropUndefined (filter (\<lambda>(k, v). v \<noteq> JUndef) kvs))"
  by (simp add: mapVals_def)

lemma snds_mem: "kv \<in> set kvs \<Longrightarrow> snd kv \<in> Basic_BNFs.snds kv"
  by (cases kv) simp

lemma dropUndefined_idem: "dropUndefined (dropUndefined v) = dropUndefined v"
proof (induction v)
  case (JObj kvs)
  have "mapVals dropUndefined (mapVals dropUndefined (filter (\<lambda>(k, v). v \<noteq> JUndef) kvs))
        = mapVals dropUndefined (filter (\<lambda>(k, v). v \<noteq> JUndef) kvs)"
    unfolding mapVals_comp
    by (rule mapVals_cong) (use JObj.IH snds_mem in auto)
  then show ?case
    by (simp only: dropUndefined_JObj filter_mapVals[of dropUndefined, OF dropUndefined_undef]
        filter_filter) simp
qed simp_all

lemma list_all_mapVals:
  assumes "\<forall>kv \<in> set kvs. P (g (snd kv)) = P (snd kv)"
  shows "list_all (\<lambda>kv. P (snd kv)) (mapVals g kvs) = list_all (\<lambda>kv. P (snd kv)) kvs"
  using assms by (induction kvs) auto

lemma list_all_sort_key: "list_all P (sort_key f xs) = list_all P xs"
  by (simp add: list_all_iff)

lemma noUndefined_seedsValue: "noUndefinedElement (seedsValue sd)"
  by (induction sd) (simp_all add: list_all_iff optStr_def split: option.splits)

lemma noUndefined_optStr: "noUndefinedElement (optStr x)"
  by (cases x) (simp_all add: optStr_def)

lemma noUndefined_txValue: "noUndefinedElement (txValue tx)"
  by (simp add: txValue_def list_all_iff spendValue_def outputValue_def noUndefined_seedsValue
      noUndefined_optStr)

subsection \<open>The enumeration order of rebuilt objects\<close>

lemma arrayIndex_Some: "arrayIndex k = Some n \<Longrightarrow> k = digitsNat n \<and> int n < 4294967295"
  by (auto simp: arrayIndex_def split: option.splits if_splits)

lemma rank_le: "rank k \<le> 4294967295"
  using arrayIndex_Some[of k] by (auto simp: rank_def split: option.splits)

lemma rank_index: "arrayIndex k = Some n \<Longrightarrow> rank k = int n"
  by (simp add: rank_def)

lemma rank_plain: "arrayIndex k = None \<Longrightarrow> rank k = 4294967295"
  by (simp add: rank_def)

lemma rank_eq_index:
  "arrayIndex k = Some n \<Longrightarrow> rank k' = int n \<Longrightarrow> k' = k"
proof -
  assume a: "arrayIndex k = Some n" and b: "rank k' = int n"
  have "int n < 4294967295" using arrayIndex_Some[OF a] by simp
  then obtain m where m: "arrayIndex k' = Some m" using b
    by (cases "arrayIndex k'") (auto simp: rank_def)
  then have "m = n" using b by (simp add: rank_def)
  then show ?thesis using arrayIndex_Some[OF a] arrayIndex_Some[OF m] by simp
qed

lemma insertIndexed_insort:
  "arrayIndex k = Some n \<Longrightarrow>
   insertIndexed n (k, v) ps = insort_key (\<lambda>kv. rank (fst kv)) (k, v) ps"
proof (induction ps)
  case Nil
  then show ?case by simp
next
  case (Cons q ps)
  have n: "int n < 4294967295" "rank k = int n"
    using arrayIndex_Some[OF Cons.prems] rank_index[OF Cons.prems] by simp_all
  show ?case
  proof (cases "arrayIndex (fst q)")
    case None
    then show ?thesis using n by (simp add: rank_plain)
  next
    case (Some m)
    then show ?thesis using n Cons by (auto simp: rank_index)
  qed
qed

lemma insort_key_snoc:
  "\<forall>x \<in> set xs. f x < f a \<Longrightarrow> insort_key f a xs = xs @ [a]"
  by (induction xs) auto

lemma sort_key_set_unique:
  assumes "set xs = set ys" "distinct (map f xs)" "distinct (map f ys)"
  shows "sort_key f xs = sort_key f ys"
proof (rule map_sorted_distinct_set_unique[of f])
  show "inj_on f (set (sort_key f xs) \<union> set (sort_key f ys))"
    using assms by (simp add: distinct_map)
  show "distinct (map f (sort_key f xs))" using assms(2) by (simp add: distinct_map)
  show "distinct (map f (sort_key f ys))" using assms(3) by (simp add: distinct_map)
  show "set (sort_key f xs) = set (sort_key f ys)" using assms(1) by simp
qed simp_all

lemma defineOwn_old_keys:
  "k \<in> fst ` set ps \<Longrightarrow> map fst (defineOwn ps k v) = map fst ps"
  by (auto simp: defineOwn_def)

lemma defineOwn_subset: "set (defineOwn ps k v) \<subseteq> insert (k, v) (set ps)"
  by (auto simp: defineOwn_def insertIndexed_insort set_insort_key split: option.splits if_splits)

lemma defineOwn_new_set:
  "k \<notin> fst ` set ps \<Longrightarrow> set (defineOwn ps k v) = insert (k, v) (set ps)"
  by (auto simp: defineOwn_def insertIndexed_insort set_insort_key split: option.splits)

lemma defineOwn_new_distinct:
  assumes "k \<notin> fst ` set ps" "distinct (map fst ps)"
  shows "distinct (map fst (defineOwn ps k v))"
proof (cases "arrayIndex k")
  case None
  then show ?thesis using assms by (simp add: defineOwn_def)
next
  case (Some n)
  have "(k, v) \<notin> set ps" using assms(1) by force
  moreover have "inj_on fst (insert (k, v) (set ps))"
    using assms by (auto simp: distinct_map inj_on_def)
  ultimately show ?thesis using assms Some
    by (simp add: defineOwn_def insertIndexed_insort distinct_map distinct_insort set_insort_key)
qed

lemma defineOwn_new_sorted:
  assumes "k \<notin> fst ` set ps" "sorted (map (\<lambda>kv. rank (fst kv)) ps)"
  shows "sorted (map (\<lambda>kv. rank (fst kv)) (defineOwn ps k v))"
proof (cases "arrayIndex k")
  case None
  then show ?thesis using assms rank_le by (simp add: defineOwn_def sorted_append rank_plain)
next
  case (Some n)
  then show ?thesis using assms
    by (simp add: defineOwn_def insertIndexed_insort sorted_insort_key)
qed

lemma defineOwn_inv:
  assumes "distinct (map fst ps)" "sorted (map (\<lambda>kv. rank (fst kv)) ps)"
  shows "distinct (map fst (defineOwn ps k v))
       \<and> sorted (map (\<lambda>kv. rank (fst kv)) (defineOwn ps k v))"
proof (cases "k \<in> fst ` set ps")
  case True
  have e: "map (\<lambda>kv. rank (fst kv)) xs = map rank (map fst xs)" for xs :: "(string \<times> jv) list"
    by simp
  show ?thesis using assms unfolding e defineOwn_old_keys[OF True] by simp
next
  case False
  then show ?thesis using assms defineOwn_new_distinct defineOwn_new_sorted by blast
qed

lemma defineOwn_snoc:
  assumes "k \<notin> fst ` set acc" "sorted (map (\<lambda>kv. rank (fst kv)) (acc @ [(k, v)]))"
  shows "defineOwn acc k v = acc @ [(k, v)]"
proof (cases "arrayIndex k")
  case None
  then show ?thesis using assms(1) by (simp add: defineOwn_def)
next
  case (Some n)
  have le: "\<forall>q \<in> set acc. rank (fst q) \<le> int n"
    using assms(2) by (auto simp: sorted_append rank_index[OF Some])
  have "\<forall>q \<in> set acc. rank (fst q) < rank (fst (k, v))"
  proof
    fix q assume q: "q \<in> set acc"
    have "rank (fst q) \<noteq> int n"
    proof
      assume "rank (fst q) = int n"
      then have "fst q = k" by (rule rank_eq_index[OF Some])
      then show False using q assms(1) by force
    qed
    then show "rank (fst q) < rank (fst (k, v))" using le q by (simp add: rank_index[OF Some] less_le)
  qed
  then have "insort_key (\<lambda>kv. rank (fst kv)) (k, v) acc = acc @ [(k, v)]"
    by (rule insort_key_snoc)
  then show ?thesis using assms(1) Some by (simp add: defineOwn_def insertIndexed_insort)
qed

lemma assign_inv:
  "distinct (map fst ps) \<Longrightarrow> sorted (map (\<lambda>kv. rank (fst kv)) ps) \<Longrightarrow>
   distinct (map fst (assign ps k v)) \<and> sorted (map (\<lambda>kv. rank (fst kv)) (assign ps k v))"
  using defineOwn_inv[of ps k v] by (simp add: assign_def)

lemma assign_subset: "set (assign ps k v) \<subseteq> insert (k, v) (set ps)"
  using defineOwn_subset[of ps k v] by (auto simp: assign_def)

lemma foldl_assign_inv:
  "distinct (map fst acc) \<Longrightarrow> sorted (map (\<lambda>kv. rank (fst kv)) acc) \<Longrightarrow>
   distinct (map fst (foldl (\<lambda>out p. assign out (fst p) (snd p)) acc ps))
   \<and> sorted (map (\<lambda>kv. rank (fst kv)) (foldl (\<lambda>out p. assign out (fst p) (snd p)) acc ps))"
proof (induction ps arbitrary: acc)
  case Nil
  then show ?case by simp
next
  case (Cons p ps)
  have a: "distinct (map fst (assign acc (fst p) (snd p)))"
    and b: "sorted (map (\<lambda>kv. rank (fst kv)) (assign acc (fst p) (snd p)))"
    using assign_inv[OF Cons.prems, of "fst p" "snd p"] by blast+
  show ?case unfolding foldl_Cons by (rule Cons.IH[OF a b])
qed

lemma foldl_assign_subset:
  "set (foldl (\<lambda>out p. assign out (fst p) (snd p)) acc ps) \<subseteq> set acc \<union> set ps"
proof (induction ps arbitrary: acc)
  case Nil
  then show ?case by simp
next
  case (Cons p ps)
  have "set (foldl (\<lambda>out p. assign out (fst p) (snd p)) (assign acc (fst p) (snd p)) ps)
          \<subseteq> set (assign acc (fst p) (snd p)) \<union> set ps" by (rule Cons.IH)
  moreover have "set (assign acc (fst p) (snd p)) \<subseteq> insert p (set acc)"
    using assign_subset[of acc "fst p" "snd p"] by simp
  ultimately have "set (foldl (\<lambda>out p. assign out (fst p) (snd p)) (assign acc (fst p) (snd p)) ps)
          \<subseteq> insert p (set acc) \<union> set ps" by blast
  then show ?case unfolding foldl_Cons by simp
qed

lemma foldl_assign_set:
  "distinct (map fst ps) \<Longrightarrow> fst ` set acc \<inter> fst ` set ps = {} \<Longrightarrow>
   set (foldl (\<lambda>out p. assign out (fst p) (snd p)) acc ps)
     = set acc \<union> {p \<in> set ps. fst p \<noteq> ''__proto__''}"
proof (induction ps arbitrary: acc)
  case Nil
  then show ?case by simp
next
  case (Cons p ps)
  obtain k v where p: "p = (k, v)" by (cases p)
  have d: "distinct (map fst ps)" and kn: "k \<notin> fst ` set ps" and ka: "k \<notin> fst ` set acc"
    and dis: "fst ` set acc \<inter> fst ` set ps = {}"
    using Cons.prems p by auto
  let ?F = "foldl (\<lambda>out p. assign out (fst p) (snd p))"
  have step: "?F acc (p # ps) = ?F (assign acc k v) ps" by (simp add: p)
  show ?case
  proof (cases "k = ''__proto__''")
    case True
    then have "assign acc k v = acc" by (simp add: assign_def)
    then have "set (?F acc (p # ps)) = set acc \<union> {p \<in> set ps. fst p \<noteq> ''__proto__''}"
      unfolding step using Cons.IH[OF d dis] by simp
    moreover have "{q \<in> set (p # ps). fst q \<noteq> ''__proto__''} = {q \<in> set ps. fst q \<noteq> ''__proto__''}"
      using True p by auto
    ultimately show ?thesis by simp
  next
    case False
    have s: "set (assign acc k v) = insert (k, v) (set acc)"
      using False defineOwn_new_set[OF ka] by (simp add: assign_def)
    have "fst ` set (assign acc k v) \<inter> fst ` set ps = {}"
      unfolding s using dis kn by simp
    from Cons.IH[OF d this]
    have "set (?F acc (p # ps)) = insert (k, v) (set acc) \<union> {p \<in> set ps. fst p \<noteq> ''__proto__''}"
      unfolding step s .
    moreover have "{q \<in> set (p # ps). fst q \<noteq> ''__proto__''}
                 = insert (k, v) {q \<in> set ps. fst q \<noteq> ''__proto__''}"
      using False p by auto
    ultimately show ?thesis by simp
  qed
qed

lemma rebuild_inv:
  "distinct (map fst (rebuild ps)) \<and> sorted (map (\<lambda>kv. rank (fst kv)) (rebuild ps))"
  unfolding rebuild_def by (rule foldl_assign_inv) simp_all

lemma rebuild_subset: "set (rebuild ps) \<subseteq> set ps"
  unfolding rebuild_def using foldl_assign_subset[of "[]" ps] by simp

lemma rebuild_set:
  "distinct (map fst ps) \<Longrightarrow> set (rebuild ps) = {p \<in> set ps. fst p \<noteq> ''__proto__''}"
  unfolding rebuild_def using foldl_assign_set[of ps "[]"] by simp

subsection \<open>Canonical form and structural equality\<close>

lemma canon_JObj: "canon (JObj kvs) = JObj (rebuild (sort_key fst (mapVals canon kvs)))"
  by (simp add: mapVals_def rebuild_def)

lemma canon_JArr: "canon (JArr xs) = JArr (map canon xs)"
  by (simp add: Let_def)

lemma canon_undef: "canon v = JUndef \<longleftrightarrow> v = JUndef"
  by (cases v) (simp_all add: Let_def)

lemma map_fst_mapVals: "map fst (mapVals g kvs) = map fst kvs"
  by (induction kvs) auto

lemma set_mapVals: "set (mapVals g kvs) = (\<lambda>kv. (fst kv, g (snd kv))) ` set kvs"
  by (simp add: mapVals_def case_prod_unfold)

lemma mapVals_all:
  "(\<And>kv. kv \<in> set kvs \<Longrightarrow> P (g (snd kv))) \<Longrightarrow> list_all (\<lambda>kv. P (snd kv)) (mapVals g kvs)"
  by (auto simp: mapVals_def list_all_iff)

lemma rebuild_all: "list_all P ps \<Longrightarrow> list_all P (rebuild ps)"
  using rebuild_subset[of ps] by (auto simp: list_all_iff)

lemma canon_props_all:
  assumes "\<And>kv. kv \<in> set kvs \<Longrightarrow> P (canon (snd kv))"
  shows "list_all (\<lambda>kv. P (snd kv)) (rebuild (sort_key fst (mapVals canon kvs)))"
proof -
  have "list_all (\<lambda>kv. P (snd kv)) (mapVals canon kvs)"
    by (rule mapVals_all) (rule assms)
  then have "list_all (\<lambda>kv. P (snd kv)) (sort_key fst (mapVals canon kvs))"
    by (simp add: list_all_sort_key)
  then show ?thesis by (rule rebuild_all)
qed

lemma enumerated_canon: "enumerated (canon v)"
proof (induction v)
  case (JArr xs)
  then show ?case by (simp add: Let_def list_all_iff)
next
  case (JObj kvs)
  have "list_all (\<lambda>kv. enumerated (snd kv)) (rebuild (sort_key fst (mapVals canon kvs)))"
    by (rule canon_props_all) (use JObj.IH snds_mem in blast)
  then show ?case
    using rebuild_inv[of "sort_key fst (mapVals canon kvs)"]
    by (simp only: canon_JObj enumerated.simps)
qed simp_all

lemma noTagged_canon: "noTaggedString v \<Longrightarrow> noTaggedString (canon v)"
proof (induction v)
  case (JArr xs)
  then show ?case by (simp add: Let_def list_all_iff)
next
  case (JObj kvs)
  have "list_all (\<lambda>kv. noTaggedString (snd kv)) (rebuild (sort_key fst (mapVals canon kvs)))"
  proof (rule canon_props_all)
    fix kv assume m: "kv \<in> set kvs"
    then have "noTaggedString (snd kv)" using JObj.prems by (simp add: list_all_iff)
    then show "noTaggedString (canon (snd kv))" using JObj.IH[OF m snds_mem[OF m]] by simp
  qed
  then show ?case by (simp only: canon_JObj noTaggedString.simps)
qed simp_all

lemma noUndefined_canon: "noUndefinedElement v \<Longrightarrow> noUndefinedElement (canon v)"
proof (induction v)
  case (JArr xs)
  then show ?case by (simp add: Let_def list_all_iff canon_undef)
next
  case (JObj kvs)
  have "list_all (\<lambda>kv. noUndefinedElement (snd kv)) (rebuild (sort_key fst (mapVals canon kvs)))"
  proof (rule canon_props_all)
    fix kv assume m: "kv \<in> set kvs"
    then have "noUndefinedElement (snd kv)" using JObj.prems by (simp add: list_all_iff)
    then show "noUndefinedElement (canon (snd kv))" using JObj.IH[OF m snds_mem[OF m]] by simp
  qed
  then show ?case by (simp only: canon_JObj noUndefinedElement.simps)
qed simp_all

lemma normalForm_JObj:
  "normalForm (JObj kvs)
     = JObj (sort_key fst (mapVals normalForm (filter (\<lambda>(k, v). v \<noteq> JUndef) kvs)))"
  by (simp add: mapVals_def)

lemma normalForm_undef: "normalForm v = JUndef \<longleftrightarrow> v = JUndef"
  by (cases v) auto

lemma distinct_keys_sort:
  "distinct (map fst kvs) \<Longrightarrow> distinct (map fst (sort_key fst kvs))"
  by (simp add: distinct_map)

lemma distinct_keys_filter:
  "distinct (map fst kvs) \<Longrightarrow> distinct (map fst (filter P kvs))"
  by (rule distinct_map_filter)

lemma rebuild_canon_set:
  assumes "distinct (map fst kvs)" "list_all (\<lambda>kv. fst kv \<noteq> ''__proto__'') kvs"
  shows "set (rebuild (sort_key fst (mapVals canon kvs))) = set (mapVals canon kvs)"
proof -
  have d: "distinct (map fst (sort_key fst (mapVals canon kvs)))"
    using assms(1) by (intro distinct_keys_sort) (simp add: map_fst_mapVals)
  have "\<forall>p \<in> set (mapVals canon kvs). fst p \<noteq> ''__proto__''"
    using assms(2) by (auto simp: set_mapVals list_all_iff)
  then show ?thesis using rebuild_set[OF d] by auto
qed

lemma nf_canon:
  "distinctKeys v \<Longrightarrow> noProtoKey v \<Longrightarrow> normalForm (canon v) = normalForm v"
proof (induction v)
  case (JArr xs)
  then show ?case by (simp add: Let_def list_all_iff)
next
  case (JObj kvs)
  let ?def = "filter (\<lambda>(k, v). v \<noteq> JUndef)"
  let ?L = "rebuild (sort_key fst (mapVals canon kvs))"
  have dk: "distinct (map fst kvs)" using JObj.prems(1) by simp
  have np: "list_all (\<lambda>kv. fst kv \<noteq> ''__proto__'') kvs"
    using JObj.prems(2) by (simp add: list_all_iff)
  have ih: "normalForm (canon (snd kv)) = normalForm (snd kv)" if "kv \<in> set kvs" for kv
    using JObj.IH[OF that snds_mem[OF that]] JObj.prems that by (simp add: list_all_iff)
  have s: "set ?L = set (mapVals canon kvs)" by (rule rebuild_canon_set[OF dk np])
  have dL: "distinct (map fst ?L)" using rebuild_inv by blast
  have dM: "distinct (map fst (mapVals canon kvs))" using dk by (simp add: map_fst_mapVals)
  have "sort_key fst (mapVals normalForm (?def ?L))
          = sort_key fst (mapVals normalForm (?def (mapVals canon kvs)))"
  proof (rule sort_key_set_unique)
    show "set (mapVals normalForm (?def ?L)) = set (mapVals normalForm (?def (mapVals canon kvs)))"
      using s by (simp add: set_mapVals)
    show "distinct (map fst (mapVals normalForm (?def ?L)))"
      using dL by (simp add: map_fst_mapVals distinct_keys_filter)
    show "distinct (map fst (mapVals normalForm (?def (mapVals canon kvs))))"
      using dM by (simp add: map_fst_mapVals distinct_keys_filter)
  qed
  also have "?def (mapVals canon kvs) = mapVals canon (?def kvs)"
    by (rule filter_mapVals) (rule canon_undef)
  also have "mapVals normalForm (mapVals canon (?def kvs)) = mapVals normalForm (?def kvs)"
    unfolding mapVals_comp by (rule mapVals_cong) (simp add: ih)
  finally show ?case by (simp only: canon_JObj normalForm_JObj)
qed simp_all

lemma nf_dropUndefined: "normalForm (dropUndefined v) = normalForm v"
proof (induction v)
  case (JObj kvs)
  let ?def = "filter (\<lambda>(k, v). v \<noteq> JUndef)"
  have "?def (mapVals dropUndefined (?def kvs)) = mapVals dropUndefined (?def (?def kvs))"
    by (rule filter_mapVals) (rule dropUndefined_undef)
  also have "\<dots> = mapVals dropUndefined (?def kvs)" by simp
  finally have a: "?def (mapVals dropUndefined (?def kvs)) = mapVals dropUndefined (?def kvs)" .
  have "mapVals normalForm (mapVals dropUndefined (?def kvs)) = mapVals normalForm (?def kvs)"
    unfolding mapVals_comp by (rule mapVals_cong) (use JObj.IH snds_mem in auto)
  then show ?case by (simp only: dropUndefined_JObj normalForm_JObj a)
qed simp_all

lemma structurallyEqual_import:
  "distinctKeys v \<Longrightarrow> noProtoKey v \<Longrightarrow> structurallyEqual (dropUndefined (canon v)) v"
  by (simp add: structurallyEqual_def nf_dropUndefined nf_canon)

subsection \<open>Reading back a written text\<close>

lemma digitValue_hexDigit: "k < 16 \<Longrightarrow> digitValue (hexDigit k) = Some k"
proof -
  assume "k < 16"
  then consider "k = 0" | "k = 1" | "k = 2" | "k = 3" | "k = 4" | "k = 5" | "k = 6" | "k = 7"
    | "k = 8" | "k = 9" | "k = 10" | "k = 11" | "k = 12" | "k = 13" | "k = 14" | "k = 15"
    by atomize_elim arith
  then show ?thesis by cases (simp_all add: digitValue_def hexDigit_def)
qed

lemma hex4_escape:
  assumes "n < 32"
  shows "hex4 (CHR ''0'') (CHR ''0'') (hexDigit (n div 16)) (hexDigit (n mod 16)) = Some n"
proof -
  have a: "n div 16 < 16" "n mod 16 < 16" using assms by simp_all
  have z: "digitValue (CHR ''0'') = Some 0" by (simp add: digitValue_def)
  show ?thesis
    using a by (simp add: hex4_def z digitValue_hexDigit)
qed

lemma parseString_escapeChar: "parseString (escapeChar c @ u) = consChar c (parseString u)"
proof -
  consider "c = CHR 0x22" | "c = CHR 0x5C" | "c = CHR 0x08" | "c = CHR 0x09" | "c = CHR 0x0A"
    | "c = CHR 0x0C" | "c = CHR 0x0D"
    | "c \<notin> {CHR 0x22, CHR 0x5C, CHR 0x08, CHR 0x09, CHR 0x0A, CHR 0x0C, CHR 0x0D}"
    by blast
  then show ?thesis
  proof cases
    case 8
    then have e: "escapeChar c = (if (of_char c :: nat) < 32
        then [CHR 0x5C, CHR ''u'', CHR ''0'', CHR ''0'',
              hexDigit (of_char c div 16), hexDigit (of_char c mod 16)]
        else [c])"
      by (simp add: escapeChar_def)
    show ?thesis
    proof (cases "(of_char c :: nat) < 32")
      case True
      then show ?thesis using e by (simp add: hex4_escape)
    next
      case False
      then show ?thesis using e 8 by simp
    qed
  qed (simp_all add: escapeChar_def)
qed

lemma parseString_body:
  "parseString (concat (map escapeChar s) @ CHR 0x22 # rest) = Some (s, rest)"
  by (induction s) (simp_all add: parseString_escapeChar consChar_def)

lemma parseString_quoteJson:
  "quoteJson s @ rest = CHR 0x22 # t \<Longrightarrow> parseString t = Some (s, rest)"
  using parseString_body[of s rest] by (simp add: quoteJson_def)

lemma digit_isDigit: "c \<in> set ''0123456789'' \<Longrightarrow> isDigit c"
  by (auto simp: isDigit_def)

lemma digitsNat_isDigit: "list_all isDigit (digitsNat n)"
  using digitsNat_chars[of n] digit_isDigit by (auto simp: list_all_iff)

lemma digit_nonzero: "0 < k \<Longrightarrow> k < 10 \<Longrightarrow> ''0123456789'' ! k \<noteq> CHR ''0''"
proof -
  assume "0 < k" "k < 10"
  then consider "k = 1" | "k = 2" | "k = 3" | "k = 4" | "k = 5" | "k = 6" | "k = 7"
    | "k = 8" | "k = 9" by atomize_elim arith
  then show ?thesis by cases simp_all
qed

lemma digitsNat_hd: "0 < n \<Longrightarrow> hd (digitsNat n) \<noteq> CHR ''0''"
proof (induction n rule: digitsNat.induct)
  case (1 n)
  show ?case
  proof (cases "n < 10")
    case True
    then show ?thesis using "1.prems" digit_nonzero[of n] by (subst digitsNat.simps) simp
  next
    case False
    then have "0 < n div 10" by simp
    from "1.IH"[OF False this] False show ?thesis
      by (subst digitsNat.simps) (simp add: digitsNat_nonempty)
  qed
qed

lemma digitsNat_no_leading_zero: "\<not> (length (digitsNat n) > 1 \<and> hd (digitsNat n) = CHR ''0'')"
proof (cases "n = 0")
  case True
  then show ?thesis by (subst digitsNat.simps) simp
next
  case False
  then show ?thesis using digitsNat_hd[of n] by simp
qed

lemma delim_not_digit: "delim rest \<Longrightarrow> rest \<noteq> [] \<Longrightarrow> \<not> isDigit (hd rest)"
  by (auto simp: delim_def isDigit_def)

lemma span_digits:
  assumes "delim rest"
  shows "takeWhile isDigit (digitsNat m @ rest) = digitsNat m"
    and "dropWhile isDigit (digitsNat m @ rest) = rest"
proof -
  have a: "\<forall>c \<in> set (digitsNat m). isDigit c" using digitsNat_isDigit[of m] by (simp add: list_all_iff)
  have b: "takeWhile isDigit rest = []" "dropWhile isDigit rest = rest"
    using delim_not_digit[OF assms] by (cases rest; simp)+
  show "takeWhile isDigit (digitsNat m @ rest) = digitsNat m"
    using a b by (simp add: takeWhile_append2)
  show "dropWhile isDigit (digitsNat m @ rest) = rest"
    using a b by (simp add: dropWhile_append2)
qed

lemma parseNumber_digits:
  assumes "delim rest"
  shows "parseNumber (digitsNat m @ rest) = Some (JNum (int m), rest)"
proof -
  obtain d ds where s: "digitsNat m = d # ds" "d \<in> set ''0123456789''"
    using digitsNat_shape[of m] by blast
  then have nm: "d \<noteq> CHR ''-''" by auto
  have r: "rest = [] \<or> hd rest \<noteq> CHR ''.'' \<and> hd rest \<noteq> CHR ''e'' \<and> hd rest \<noteq> CHR ''E''"
    using assms by (auto simp: delim_def)
  have neg: "\<not> (digitsNat m @ rest \<noteq> [] \<and> hd (digitsNat m @ rest) = CHR ''-'')"
    using s nm by simp
  show ?thesis
    unfolding parseNumber_def Let_def
    using neg span_digits[OF assms, of m] digitsNat_nonempty[of m]
      digitsNat_no_leading_zero[of m] r parse_digitsNat[of m]
    by (simp del: digitsNat.simps)
qed

lemma parseNumber_neg_digits:
  assumes "delim rest"
  shows "parseNumber (CHR ''-'' # digitsNat m @ rest) = Some (JNum (- int m), rest)"
proof -
  have r: "rest = [] \<or> hd rest \<noteq> CHR ''.'' \<and> hd rest \<noteq> CHR ''e'' \<and> hd rest \<noteq> CHR ''E''"
    using assms by (auto simp: delim_def)
  show ?thesis
    unfolding parseNumber_def Let_def
    using span_digits[OF assms, of m] digitsNat_nonempty[of m]
      digitsNat_no_leading_zero[of m] r parse_digitsNat[of m]
    by (simp del: digitsNat.simps)
qed

lemma parseNumber_toString:
  assumes "delim rest"
  shows "parseNumber (toString i @ rest) = Some (JNum i, rest)"
proof (cases "i < 0")
  case True
  then show ?thesis using parseNumber_neg_digits[OF assms, of "nat (- i)"] by (simp add: toString_def)
next
  case False
  then show ?thesis using parseNumber_digits[OF assms, of "nat i"] by (simp add: toString_def)
qed

lemma toString_first:
  "\<exists>c t. toString i = c # t \<and> (c = CHR ''-'' \<or> c \<in> set ''0123456789'')"
proof (cases "i < 0")
  case True
  then show ?thesis by (simp add: toString_def)
next
  case False
  obtain d ds where "digitsNat (nat i) = d # ds" "d \<in> set ''0123456789''"
    using digitsNat_shape[of "nat i"] by blast
  then show ?thesis using False by (simp add: toString_def)
qed

lemma plainDoc_not_undef: "plainDoc d \<Longrightarrow> d \<noteq> JUndef"
  by (cases d) auto

lemma cs_JArr_plain:
  "list_all plainDoc xs \<Longrightarrow>
   canonicalStringify (JArr xs) = CHR ''['' # joinWith '','' (map canonicalStringify xs) @ '']''"
proof -
  assume "list_all plainDoc xs"
  then have e: "map (\<lambda>x. if x = JUndef then ''null'' else canonicalStringify x) xs
             = map canonicalStringify xs"
    by (auto simp: list_all_iff dest: plainDoc_not_undef)
  show ?thesis by (simp only: canonicalStringify.simps e) simp
qed

lemma cs_JObj_plain:
  "list_all (\<lambda>kv. plainDoc (snd kv)) kvs \<Longrightarrow>
   canonicalStringify (JObj kvs) = CHR ''{'' # joinWith '','' (map member kvs) @ ''}''"
proof -
  assume "list_all (\<lambda>kv. plainDoc (snd kv)) kvs"
  then have f: "filter (\<lambda>(k, v). v \<noteq> JUndef) kvs = kvs"
    by (auto simp: list_all_iff filter_id_conv dest: plainDoc_not_undef)
  have m: "(\<lambda>(k, v). quoteJson k @ '':'' @ canonicalStringify v) = member"
    by (auto simp: member_def fun_eq_iff)
  show ?thesis by (simp only: canonicalStringify.simps f m) simp
qed

lemma skipWhite_id: "\<not> isJsonWhite c \<Longrightarrow> skipWhite (c # r) = c # r"
  by (simp add: skipWhite_def)

lemma quote_head: "quoteJson s = CHR 0x22 # concat (map escapeChar s) @ [CHR 0x22]"
  by (simp add: quoteJson_def)

lemma render_head:
  "plainDoc d \<Longrightarrow>
   \<exists>c t. canonicalStringify d = c # t \<and> \<not> isJsonWhite c \<and> c \<noteq> CHR '']'' \<and> c \<noteq> CHR ''}''"
proof (cases d)
  case (JNum i)
  obtain c t where "toString i = c # t" "c = CHR ''-'' \<or> c \<in> set ''0123456789''"
    using toString_first[of i] by blast
  then show ?thesis using JNum by (auto simp: isJsonWhite_def)
next
  case (JArr xs)
  assume "plainDoc d"
  then show ?thesis using JArr by (simp add: cs_JArr_plain isJsonWhite_def)
next
  case (JObj kvs)
  assume "plainDoc d"
  then show ?thesis using JObj by (simp add: cs_JObj_plain isJsonWhite_def)
qed (auto simp: isJsonWhite_def quote_head)

lemma pv_null: "parseValue (Suc n) (''null'' @ rest) = Some (JNull, rest)"
  by (simp add: skipWhite_def isJsonWhite_def)

lemma pv_true: "parseValue (Suc n) (''true'' @ rest) = Some (JBool True, rest)"
  by (simp add: skipWhite_def isJsonWhite_def)

lemma pv_false: "parseValue (Suc n) (''false'' @ rest) = Some (JBool False, rest)"
  by (simp add: skipWhite_def isJsonWhite_def)

lemma pv_str: "parseValue (Suc n) (quoteJson s @ rest) = Some (JStr s, rest)"
proof -
  have "quoteJson s @ rest = CHR 0x22 # (concat (map escapeChar s) @ CHR 0x22 # rest)"
    by (simp add: quoteJson_def)
  then show ?thesis
    by (simp add: skipWhite_def isJsonWhite_def parseString_body)
qed

lemma pv_num:
  assumes "delim rest"
  shows "parseValue (Suc n) (toString i @ rest) = Some (JNum i, rest)"
proof -
  obtain c t where s: "toString i = c # t" and c: "c = CHR ''-'' \<or> c \<in> set ''0123456789''"
    using toString_first[of i] by blast
  have w: "\<not> isJsonWhite c" using c by (auto simp: isJsonWhite_def)
  have d: "c \<noteq> CHR ''{''" "c \<noteq> CHR ''[''" "c \<noteq> CHR 0x22" "c \<noteq> CHR ''t''" "c \<noteq> CHR ''f''"
    "c \<noteq> CHR ''n''" using c by auto
  have "parseValue (Suc n) (c # t @ rest) = parseNumber (c # t @ rest)"
    using d by (simp add: skipWhite_id[OF w])
  then show ?thesis using parseNumber_toString[OF assms, of i] s by simp
qed

lemma pv_arr_empty: "parseValue (Suc n) (''[]'' @ rest) = Some (JArr [], rest)"
  by (simp add: skipWhite_def isJsonWhite_def)

lemma pv_obj_empty: "parseValue (Suc n) (''{}'' @ rest) = Some (JObj [], rest)"
  by (simp add: skipWhite_def isJsonWhite_def)

lemma pv_arr:
  assumes "\<not> isJsonWhite c" "c \<noteq> CHR '']''"
  shows "parseValue (Suc n) (CHR ''['' # c # t) = parseElements n (c # t) []"
  using assms by (simp add: skipWhite_id[OF assms(1)]) (simp add: skipWhite_def isJsonWhite_def)

lemma pv_obj:
  assumes "\<not> isJsonWhite c" "c \<noteq> CHR ''}''"
  shows "parseValue (Suc n) (CHR ''{'' # c # t) = parseMembers n (c # t) []"
  using assms by (simp add: skipWhite_id[OF assms(1)]) (simp add: skipWhite_def isJsonWhite_def)

lemma joinWith_Cons': "joinWith sep (x # xs) = x @ (if xs = [] then [] else sep @ joinWith sep xs)"
  by (cases xs) auto

lemma delim_simps: "delim (CHR '','' # r)" "delim (CHR '']'' # r)" "delim (CHR ''}'' # r)"
  by (simp_all add: delim_def)

lemma parseElements_render:
  assumes "\<And>x n rest. x \<in> set xs \<Longrightarrow> need x \<le> n \<Longrightarrow> delim rest \<Longrightarrow>
             parseValue n (canonicalStringify x @ rest) = Some (x, rest)"
    and "xs \<noteq> []" and "sum_list (map (\<lambda>x. Suc (need x)) xs) \<le> n"
  shows "parseElements n (joinWith '','' (map canonicalStringify xs) @ CHR '']'' # rest) acc
           = Some (JArr (acc @ xs), rest)"
  using assms
proof (induction xs arbitrary: n acc)
  case Nil
  then show ?case by simp
next
  case (Cons x xs)
  from Cons.prems(3) obtain m where n: "n = Suc m" and nx: "need x \<le> m"
    and ns: "sum_list (map (\<lambda>x. Suc (need x)) xs) \<le> m"
    by (cases n) auto
  have px: "\<And>rest. delim rest \<Longrightarrow> parseValue m (canonicalStringify x @ rest) = Some (x, rest)"
    using Cons.prems(1)[of x m] nx by simp
  show ?case
  proof (cases "xs = []")
    case True
    have "parseValue m (canonicalStringify x @ CHR '']'' # rest) = Some (x, CHR '']'' # rest)"
      by (rule px) (rule delim_simps)
    then show ?thesis using True n
      by (simp add: skipWhite_def isJsonWhite_def)
  next
    case False
    let ?tail = "joinWith '','' (map canonicalStringify xs) @ CHR '']'' # rest"
    have "parseValue m (canonicalStringify x @ CHR '','' # ?tail) = Some (x, CHR '','' # ?tail)"
      by (rule px) (rule delim_simps)
    moreover have "parseElements m ?tail (acc @ [x]) = Some (JArr ((acc @ [x]) @ xs), rest)"
      by (rule Cons.IH[OF _ False ns]) (rule Cons.prems(1), simp_all)
    ultimately show ?thesis using False n
      by (simp add: joinWith_Cons' skipWhite_def isJsonWhite_def)
  qed
qed

lemma member_head: "member kv = CHR 0x22 # concat (map escapeChar (fst kv)) @ CHR 0x22 # CHR '':'' # canonicalStringify (snd kv)"
  by (simp add: member_def quoteJson_def)

lemma parseMembers_render:
  assumes "\<And>kv n rest. kv \<in> set kvs \<Longrightarrow> need (snd kv) \<le> n \<Longrightarrow> delim rest \<Longrightarrow>
             parseValue n (canonicalStringify (snd kv) @ rest) = Some (snd kv, rest)"
    and "kvs \<noteq> []" and "sum_list (map (\<lambda>kv. Suc (need (snd kv))) kvs) \<le> n"
    and "distinct (map fst (acc @ kvs))"
    and "sorted (map (\<lambda>kv. rank (fst kv)) (acc @ kvs))"
  shows "parseMembers n (joinWith '','' (map member kvs) @ CHR ''}'' # rest) acc
           = Some (JObj (acc @ kvs), rest)"
  using assms
proof (induction kvs arbitrary: n acc)
  case Nil
  then show ?case by simp
next
  case (Cons kv kvs)
  obtain k v where kv: "kv = (k, v)" by (cases kv)
  from Cons.prems(3) obtain m where n: "n = Suc m" and nx: "need v \<le> m"
    and ns: "sum_list (map (\<lambda>kv. Suc (need (snd kv))) kvs) \<le> m"
    by (cases n) (auto simp: kv)
  have px: "\<And>rest. delim rest \<Longrightarrow> parseValue m (canonicalStringify v @ rest) = Some (v, rest)"
    using Cons.prems(1)[of kv m] nx kv by simp
  have new: "defineOwn acc k v = acc @ [(k, v)]"
  proof (rule defineOwn_snoc)
    show "k \<notin> fst ` set acc" using Cons.prems(4) kv by auto
    show "sorted (map (\<lambda>kv. rank (fst kv)) (acc @ [(k, v)]))"
      using Cons.prems(5) kv by (simp add: sorted_append)
  qed
  have str: "parseString (concat (map escapeChar k) @ CHR 0x22 # u) = Some (k, u)" for u
    by (rule parseString_body)
  show ?case
  proof (cases "kvs = []")
    case True
    have "parseValue m (canonicalStringify v @ CHR ''}'' # rest) = Some (v, CHR ''}'' # rest)"
      by (rule px) (rule delim_simps)
    then show ?thesis using True n new
      by (simp add: kv member_head str skipWhite_def isJsonWhite_def)
  next
    case False
    let ?tail = "joinWith '','' (map member kvs) @ CHR ''}'' # rest"
    obtain kv' kvs' where k': "kvs = kv' # kvs'" using False by (cases kvs) auto
    have th: "skipWhite ?tail = ?tail"
      unfolding k' by (simp add: joinWith_Cons' member_head skipWhite_def isJsonWhite_def)
    have "parseValue m (canonicalStringify v @ CHR '','' # ?tail) = Some (v, CHR '','' # ?tail)"
      by (rule px) (rule delim_simps)
    moreover have "parseMembers m ?tail (acc @ [(k, v)]) = Some (JObj ((acc @ [(k, v)]) @ kvs), rest)"
    proof (rule Cons.IH[OF _ False ns])
      show "distinct (map fst ((acc @ [(k, v)]) @ kvs))" using Cons.prems(4) kv by simp
      show "sorted (map (\<lambda>kv. rank (fst kv)) ((acc @ [(k, v)]) @ kvs))"
        using Cons.prems(5) kv by simp
    qed (rule Cons.prems(1), simp_all)
    moreover have "member (k, v)
        = CHR 0x22 # concat (map escapeChar k) @ CHR 0x22 # CHR '':'' # canonicalStringify v"
      by (simp add: member_def quoteJson_def)
    ultimately show ?thesis using False n new th
      by (simp add: kv joinWith_Cons' str skipWhite_def isJsonWhite_def)
  qed
qed

lemma parseValue_render:
  "plainDoc d \<Longrightarrow> need d \<le> n \<Longrightarrow> delim rest \<Longrightarrow>
   parseValue n (canonicalStringify d @ rest) = Some (d, rest)"
proof (induction d arbitrary: n rest)
  case JUndef
  then show ?case by simp
next
  case JNull
  then obtain m where "n = Suc m" by (cases n) auto
  then show ?case using pv_null by simp
next
  case (JBool b)
  then obtain m where "n = Suc m" by (cases n) auto
  then show ?case using pv_true pv_false by (cases b) simp_all
next
  case (JNum i)
  then obtain m where "n = Suc m" by (cases n) auto
  then show ?case using pv_num[OF JNum.prems(3)] by simp
next
  case (JBig i)
  then show ?case by simp
next
  case (JStr s)
  then obtain m where "n = Suc m" by (cases n) auto
  then show ?case using pv_str by simp
next
  case (JArr xs)
  from JArr.prems(2) obtain m where n: "n = Suc m"
    and ns: "sum_list (map (\<lambda>x. Suc (need x)) xs) \<le> m" by (cases n) auto
  have pl: "list_all plainDoc xs" using JArr.prems(1) by simp
  show ?case
  proof (cases "xs = []")
    case True
    then show ?thesis using n pv_arr_empty[of m rest] by simp
  next
    case False
    then obtain x xs' where xs: "xs = x # xs'" by (cases xs) auto
    have "plainDoc x" using pl xs by simp
    from render_head[OF this] obtain c t where
      h: "canonicalStringify x = c # t" "\<not> isJsonWhite c" "c \<noteq> CHR '']''" by blast
    let ?body = "joinWith '','' (map canonicalStringify xs) @ CHR '']'' # rest"
    obtain t' where b: "?body = c # t'"
      unfolding xs using h(1) by (simp add: joinWith_Cons')
    have el: "parseElements m ?body [] = Some (JArr ([] @ xs), rest)"
    proof (rule parseElements_render[OF _ False ns])
      fix x n rest assume "x \<in> set xs" "need x \<le> n" "delim rest"
      then show "parseValue n (canonicalStringify x @ rest) = Some (x, rest)"
        using JArr.IH[of x n rest] pl by (simp add: list_all_iff)
    qed
    have "canonicalStringify (JArr xs) @ rest = CHR ''['' # ?body"
      by (simp add: cs_JArr_plain[OF pl] del: canonicalStringify.simps)
    then show ?thesis using n pv_arr[OF h(2,3), of m t'] el b by simp
  qed
next
  case (JObj kvs)
  from JObj.prems(2) obtain m where n: "n = Suc m"
    and ns: "sum_list (map (\<lambda>kv. Suc (need (snd kv))) kvs) \<le> m" by (cases n) auto
  have pl: "list_all (\<lambda>kv. plainDoc (snd kv)) kvs" and di: "distinct (map fst kvs)"
    and so: "sorted (map (\<lambda>kv. rank (fst kv)) kvs)"
    using JObj.prems(1) by simp_all
  show ?case
  proof (cases "kvs = []")
    case True
    then show ?thesis using n pv_obj_empty[of m rest] by simp
  next
    case False
    then obtain kv kvs' where ks: "kvs = kv # kvs'" by (cases kvs) auto
    let ?body = "joinWith '','' (map member kvs) @ CHR ''}'' # rest"
    obtain t' where b: "?body = CHR 0x22 # t'"
      unfolding ks by (simp add: joinWith_Cons' member_head)
    have q: "\<not> isJsonWhite (CHR 0x22)" "CHR 0x22 \<noteq> CHR ''}''" by (simp_all add: isJsonWhite_def)
    have el: "parseMembers m ?body [] = Some (JObj ([] @ kvs), rest)"
    proof (rule parseMembers_render[OF _ False ns])
      fix kv n rest assume m: "kv \<in> set kvs" and "need (snd kv) \<le> n" "delim rest"
      moreover have "snd kv \<in> Basic_BNFs.snds kv" by (cases kv) simp
      ultimately show "parseValue n (canonicalStringify (snd kv) @ rest) = Some (snd kv, rest)"
        using JObj.IH[OF m, of "snd kv" n rest] pl by (simp add: list_all_iff)
    next
      show "distinct (map fst ([] @ kvs))" using di by simp
      show "sorted (map (\<lambda>kv. rank (fst kv)) ([] @ kvs))" using so by simp
    qed
    have "canonicalStringify (JObj kvs) @ rest = CHR ''{'' # ?body"
      by (simp add: cs_JObj_plain[OF pl] del: canonicalStringify.simps)
    then show ?thesis using n pv_obj[OF q, of m t'] el b by simp
  qed
qed

lemma join_length:
  "ss \<noteq> [] \<Longrightarrow> Suc (length (joinWith '','' ss)) = sum_list (map (\<lambda>s. Suc (length s)) ss)"
proof (induction ss)
  case Nil
  then show ?case by simp
next
  case (Cons s ss)
  then show ?case by (cases "ss = []") (simp_all add: joinWith_Cons')
qed

lemma sum_bound:
  "(\<And>x. x \<in> set xs \<Longrightarrow> f x \<le> 2 * g x) \<Longrightarrow>
   sum_list (map (\<lambda>x. Suc (f x)) xs) \<le> 2 * sum_list (map (\<lambda>x. Suc (g x)) xs)"
proof (induction xs)
  case Nil
  then show ?case by simp
next
  case (Cons x xs)
  have "f x \<le> 2 * g x" by (rule Cons.prems) simp
  moreover have "sum_list (map (\<lambda>x. Suc (f x)) xs) \<le> 2 * sum_list (map (\<lambda>x. Suc (g x)) xs)"
    by (rule Cons.IH) (rule Cons.prems, simp)
  ultimately show ?case by simp
qed

lemma member_length: "length (canonicalStringify (snd kv)) \<le> length (member kv)"
  by (simp add: member_def)

lemma need_bound: "plainDoc d \<Longrightarrow> need d \<le> 2 * length (canonicalStringify d)"
proof (induction d)
  case (JNum i)
  obtain c t where "toString i = c # t" using toString_first[of i] by blast
  then show ?case by simp
next
  case (JArr xs)
  have pl: "list_all plainDoc xs" using JArr.prems by simp
  show ?case
  proof (cases "xs = []")
    case True
    then show ?thesis by simp
  next
    case False
    have b: "sum_list (map (\<lambda>x. Suc (need x)) xs)
               \<le> 2 * sum_list (map (\<lambda>x. Suc (length (canonicalStringify x))) xs)"
      by (rule sum_bound) (use JArr.IH pl in \<open>auto simp: list_all_iff\<close>)
    have "sum_list (map (\<lambda>x. Suc (length (canonicalStringify x))) xs)
            = Suc (length (joinWith '','' (map canonicalStringify xs)))"
      using join_length[of "map canonicalStringify xs"] False by (simp add: comp_def)
    then show ?thesis using b by (simp add: cs_JArr_plain[OF pl] del: canonicalStringify.simps)
  qed
next
  case (JObj kvs)
  have pl: "list_all (\<lambda>kv. plainDoc (snd kv)) kvs" using JObj.prems by simp
  show ?case
  proof (cases "kvs = []")
    case True
    then show ?thesis by simp
  next
    case False
    have b: "sum_list (map (\<lambda>kv. Suc (need (snd kv))) kvs)
               \<le> 2 * sum_list (map (\<lambda>kv. Suc (length (member kv))) kvs)"
    proof (rule sum_bound)
      fix kv assume m: "kv \<in> set kvs"
      have "plainDoc (snd kv)" using pl m by (simp add: list_all_iff)
      then have "need (snd kv) \<le> 2 * length (canonicalStringify (snd kv))"
        using JObj.IH[OF m snds_mem[OF m]] by simp
      then show "need (snd kv) \<le> 2 * length (member kv)"
        using member_length[of kv] by linarith
    qed
    have "sum_list (map (\<lambda>kv. Suc (length (member kv))) kvs)
            = Suc (length (joinWith '','' (map member kvs)))"
      using join_length[of "map member kvs"] False by (simp add: comp_def)
    then show ?thesis using b by (simp add: cs_JObj_plain[OF pl] del: canonicalStringify.simps)
  qed
qed (simp_all add: quoteJson_def)

lemma JSON_parse_render: "plainDoc d \<Longrightarrow> JSON_parse (canonicalStringify d) = Some d"
proof -
  assume pl: "plainDoc d"
  have "need d \<le> 2 * length (canonicalStringify d) + 2" using need_bound[OF pl] by simp
  from parseValue_render[OF pl this, of "[]"]
  show ?thesis by (simp add: JSON_parse_def delim_def skipWhite_def)
qed

lemma plainDoc_serialized: "enumerated v \<Longrightarrow> v \<noteq> JUndef \<Longrightarrow> plainDoc (serialized v)"
proof (induction v)
  case (JArr xs)
  have "plainDoc (serialized x)" if "x \<in> set xs" "x \<noteq> JUndef" for x
    using JArr.IH[OF that(1)] JArr.prems(1) that by (simp add: list_all_iff)
  then show ?case by (auto simp: list_all_iff)
next
  case (JObj kvs)
  let ?def = "filter (\<lambda>(k, v). v \<noteq> JUndef) kvs"
  have e: "map (\<lambda>(k, v). (k, serialized v)) ?def = mapVals serialized ?def"
    by (simp add: mapVals_def)
  have r: "map (\<lambda>kv. rank (fst kv)) xs = map rank (map fst xs)" for xs :: "(string \<times> jv) list"
    by simp
  have d: "distinct (map fst ?def)" using JObj.prems(1) by (simp add: distinct_keys_filter)
  have s: "sorted (map (\<lambda>kv. rank (fst kv)) ?def)"
    using JObj.prems(1) by (simp add: sorted_filter)
  have a: "list_all (\<lambda>kv. plainDoc (snd kv)) (mapVals serialized ?def)"
  proof (rule mapVals_all)
    fix kv assume m: "kv \<in> set ?def"
    then have k: "kv \<in> set kvs" and u: "snd kv \<noteq> JUndef" by auto
    have "enumerated (snd kv)" using JObj.prems(1) k by (simp add: list_all_iff)
    then show "plainDoc (serialized (snd kv))" using JObj.IH[OF k snds_mem[OF k]] u by simp
  qed
  show ?case
    unfolding serialized.simps e plainDoc.simps r map_fst_mapVals
    using d s a unfolding r by simp
qed simp_all

lemma JSON_parse_stringify:
  "enumerated v \<Longrightarrow> v \<noteq> JUndef \<Longrightarrow> JSON_parse (canonicalStringify v) = Some (serialized v)"
  using JSON_parse_render[OF plainDoc_serialized, of v] by (simp add: stringify_serialized)

subsection \<open>The exported transaction\<close>

lemma map_of_mapVals: "map_of (mapVals g kvs) k = map_option g (map_of kvs k)"
  by (induction kvs) auto

lemma map_of_defined:
  "distinct (map fst kvs) \<Longrightarrow>
   map_of (filter (\<lambda>(k, v). v \<noteq> JUndef) kvs) k
     = (case map_of kvs k of None \<Rightarrow> None | Some v \<Rightarrow> if v = JUndef then None else Some v)"
proof (induction kvs)
  case Nil
  then show ?case by simp
next
  case (Cons kv kvs)
  obtain k' v' where kv: "kv = (k', v')" by (cases kv)
  have d: "distinct (map fst kvs)" and n: "k' \<notin> fst ` set kvs" using Cons.prems kv by auto
  have none: "map_of (filter (\<lambda>(k, v). v \<noteq> JUndef) kvs) k' = None"
    using n by (auto simp: map_of_eq_None_iff)
  show ?case using Cons.IH[OF d] none by (auto simp: kv)
qed

lemma map_of_rebuild:
  assumes "distinct (map fst ps)" "k \<noteq> ''__proto__''"
  shows "map_of (rebuild ps) k = map_of ps k"
proof -
  have s: "set (rebuild ps) = {p \<in> set ps. fst p \<noteq> ''__proto__''}" by (rule rebuild_set[OF assms(1)])
  have d: "distinct (map fst (rebuild ps))" using rebuild_inv by blast
  show ?thesis
  proof (cases "map_of ps k")
    case None
    then have "k \<notin> fst ` set ps" by (simp add: map_of_eq_None_iff)
    then have "k \<notin> fst ` set (rebuild ps)" using s by auto
    then have "map_of (rebuild ps) k = None" by (simp add: map_of_eq_None_iff)
    then show ?thesis using None by simp
  next
    case (Some v)
    then have "(k, v) \<in> set ps" by (rule map_of_SomeD)
    then have "(k, v) \<in> set (rebuild ps)" using s assms(2) by simp
    then show ?thesis using Some d by simp
  qed
qed

lemma map_of_sort_key:
  "distinct (map fst ps) \<Longrightarrow> map_of (sort_key fst ps) k = map_of ps k"
proof -
  assume d: "distinct (map fst ps)"
  have "map_of (sort_key fst ps) = map_of ps"
    by (rule map_of_inject_set[THEN iffD2]) (use d in \<open>simp_all add: distinct_keys_sort\<close>)
  then show ?thesis by simp
qed

lemma getProp_import:
  assumes "distinct (map fst kvs)" "k \<noteq> ''__proto__''"
  shows "getProp (dropUndefined (canon (JObj kvs))) k = dropUndefined (canon (getProp (JObj kvs) k))"
proof -
  let ?ps = "sort_key fst (mapVals canon kvs)"
  have dm: "distinct (map fst (mapVals canon kvs))" using assms(1) by (simp add: map_fst_mapVals)
  have dp: "distinct (map fst ?ps)" by (rule distinct_keys_sort[OF dm])
  have dr: "distinct (map fst (rebuild ?ps))" using rebuild_inv by blast
  have "map_of (rebuild ?ps) k = map_option canon (map_of kvs k)"
    by (simp add: map_of_rebuild[OF dp assms(2)] map_of_sort_key[OF dm] map_of_mapVals)
  then have "map_of (mapVals dropUndefined (filter (\<lambda>(k, v). v \<noteq> JUndef) (rebuild ?ps))) k
      = map_option dropUndefined
          (case map_option canon (map_of kvs k) of
             None \<Rightarrow> None | Some v \<Rightarrow> if v = JUndef then None else Some v)"
    by (simp add: map_of_mapVals map_of_defined[OF dr])
  then show ?thesis
    by (simp only: canon_JObj dropUndefined_JObj getProp_def jv.case)
       (simp split: option.splits add: canon_undef)
qed

lemma distinct_sorted_list_of_fset: "distinct (sorted_list_of_fset S)"
  by (simp add: sorted_list_of_fset.rep_eq)

lemma distinctKeys_seedsValue: "distinctKeys (seedsValue sd)"
  by (induction sd)
     (simp_all add: list_all_iff optStr_def comp_def distinct_sorted_list_of_fset
        split: option.splits)

lemma distinctKeys_txValue: "distinctKeys (txValue tx)"
  by (simp add: txValue_def list_all_iff spendValue_def outputValue_def distinctKeys_seedsValue
      optStr_def split: option.splits)

lemma tx_keys: "distinct (map fst
     [(''version'', a), (''network'', b), (''spends'', c), (''outputs'', d), (''fee'', e),
      (''unsignedHash'', f)])"
  by simp

lemma import_props:
  "getProp (dropUndefined (canon (txValue tx))) ''version'' = JNum (version tx)
   \<and> getProp (dropUndefined (canon (txValue tx))) ''unsignedHash'' = JStr (unsignedHash tx)
   \<and> getProp (dropUndefined (canon (txValue tx))) ''fee'' = JBig (fee tx)
   \<and> getProp (dropUndefined (canon (txValue tx))) ''spends''
       = JArr (map (\<lambda>s. dropUndefined (canon (spendValue s))) (spends tx))
   \<and> getProp (dropUndefined (canon (txValue tx))) ''outputs''
       = JArr (map (\<lambda>o'. dropUndefined (canon (outputValue o'))) (outputs tx))"
  unfolding txValue_def
  by (simp add: getProp_import[OF tx_keys] del: deepCanonicalize.simps dropUndefined.simps)
     (simp add: getProp_def Let_def comp_def)

lemma import_amount:
  "getProp (dropUndefined (canon (outputValue o'))) ''amount'' = JBig (amount o')"
proof -
  have d: "distinct (map fst [(''address'', a), (''amount'', b), (''assetId'', c)])" for a b c :: jv
    by simp
  show ?thesis
    unfolding outputValue_def
    by (simp add: getProp_import[OF d] del: deepCanonicalize.simps dropUndefined.simps)
       (simp add: getProp_def)
qed

lemma exportTx_parse:
  "JSON_parse (exportTx tx) = Some (serialized (canon (txValue tx)))"
proof -
  have "canon (txValue tx) \<noteq> JUndef" by (simp add: canon_undef txValue_def)
  then show ?thesis
    unfolding exportTx_def Let_def by (intro JSON_parse_stringify enumerated_canon)
qed

text \<open>
  C8, as the code has it. For a transaction none of whose string values starts with \<open>n:\<close>
  and none of whose signature records has the key \<open>__proto__\<close>, importing the exported text
  succeeds and returns a value structurally equal to the transaction: the same properties
  with structurally equal values, up to the order of the properties and the optional fields
  that are absent. The fee and every output amount come back as the same bigint.
\<close>

theorem importTx_exportTx_untagged:
  assumes "noTaggedString (txValue tx)" and "noProtoKey (txValue tx)"
  shows "\<exists>r. importTx (exportTx tx) = Inr r
           \<and> structurallyEqual r (txValue tx)
           \<and> getProp r ''fee'' = JBig (fee tx)
           \<and> map (\<lambda>x. getProp x ''amount'') (elements (getProp r ''outputs''))
               = map (\<lambda>x. JBig (amount x)) (outputs tx)"
proof -
  let ?r = "dropUndefined (canon (txValue tx))"
  have rv: "revive (serialized (canon (txValue tx))) = Inr ?r"
    using assms(1)
    by (intro revive_serialized noTagged_canon noUndefined_canon noUndefined_txValue)
  have imp: "importTx (exportTx tx) = Inr ?r"
    using import_props[of tx] by (simp add: importTx_def exportTx_parse rv)
  have eq: "structurallyEqual ?r (txValue tx)"
    by (rule structurallyEqual_import[OF distinctKeys_txValue assms(2)])
  have fee: "getProp ?r ''fee'' = JBig (fee tx)" using import_props[of tx] by simp
  have am: "map (\<lambda>x. getProp x ''amount'') (elements (getProp ?r ''outputs''))
               = map (\<lambda>x. JBig (amount x)) (outputs tx)"
    using import_props[of tx] by (simp add: comp_def import_amount)
  show ?thesis using imp eq fee am by blast
qed

lemma demo_untagged:
  "noTaggedString (txValue demoTxSigned) \<and> noProtoKey (txValue demoTxSigned)
   \<and> noTaggedString (txValue demoTxIndexed) \<and> noProtoKey (txValue demoTxIndexed)"
  by code_simp

lemma demo_indexed_order:
  "getProp (getProp (hd (elements (getProp (projr (importTx (exportTx demoTxIndexed)))
        ''spends''))) ''seeds'') ''signatures''
       = JObj [(''9'', JStr ''s9''), (''10'', JStr ''s10''), (''P1'', JStr ''sig:P1'')]"
  by code_simp

theorem importTx_exportTx_untagged_witness:
  "(\<exists>r. importTx (exportTx demoTxSigned) = Inr r
        \<and> structurallyEqual r (txValue demoTxSigned)
        \<and> getProp r ''fee'' = JBig (fee demoTxSigned)
        \<and> map (\<lambda>x. getProp x ''amount'') (elements (getProp r ''outputs''))
            = map (\<lambda>x. JBig (amount x)) (outputs demoTxSigned))
   \<and> (\<exists>r. importTx (exportTx demoTxIndexed) = Inr r
        \<and> structurallyEqual r (txValue demoTxIndexed)
        \<and> getProp r ''fee'' = JBig (fee demoTxIndexed)
        \<and> map (\<lambda>x. getProp x ''amount'') (elements (getProp r ''outputs''))
            = map (\<lambda>x. JBig (amount x)) (outputs demoTxIndexed))
   \<and> getProp (getProp (hd (elements (getProp (projr (importTx (exportTx demoTxIndexed)))
        ''spends''))) ''seeds'') ''signatures''
       = JObj [(''9'', JStr ''s9''), (''10'', JStr ''s10''), (''P1'', JStr ''sig:P1'')]"
  using importTx_exportTx_untagged[of demoTxSigned] importTx_exportTx_untagged[of demoTxIndexed]
    demo_untagged demo_indexed_order by blast

text \<open>
  C8 as stated fails. The reviver cannot tell a string that starts with \<open>n:\<close> from a tagged
  bigint: an output address \<open>n:1\<close> comes back as the bigint 1, and a network name \<open>n:main\<close>
  makes the import throw. And the rebuild of an object in \<open>deepCanonicalize\<close> loses a
  property named \<open>__proto__\<close>: the signature that \<open>attachSignatureToSpend\<close> stores under
  the public key \<open>__proto__\<close> is not in the exported text, so the imported transaction has
  an empty signature record.
\<close>

theorem importTx_exportTx_not_inverse:
  "\<not> isl (importTx (exportTx demoTxTagged))
   \<and> \<not> structurallyEqual (projr (importTx (exportTx demoTxTagged))) (txValue demoTxTagged)
   \<and> getProp (hd (elements (getProp (projr (importTx (exportTx demoTxTagged))) ''outputs'')))
        ''address'' = JBig 1
   \<and> importTx (exportTx demoTxTaggedNetwork) = Inl BigIntSyntaxError
   \<and> attachSignatureToSpend demoTxProtoUnsigned ''h50.1'' ''__proto__'' ''sp'' demoCrypto
       = Inr demoTxProto
   \<and> noTaggedString (txValue demoTxProto)
   \<and> \<not> isl (importTx (exportTx demoTxProto))
   \<and> \<not> structurallyEqual (projr (importTx (exportTx demoTxProto))) (txValue demoTxProto)
   \<and> getProp (getProp (hd (elements (getProp (projr (importTx (exportTx demoTxProto))) ''spends'')))
        ''seeds'') ''signatures'' = JObj []"
  by code_simp

end
